theory Spec2Isabelle
  imports Main "HOL-Library.Product_Lexorder" "HOL-Library.AList" "HOL-Library.Multiset"
begin

section \<open>Timestamps and the calendar\<close>

text \<open>
  The program keeps the time of an archive as a Python \<^verbatim>\<open>datetime\<close> without time zone.
  Such a value is a tuple of integer fields; two values are compared field by field, from the
  year down to the microsecond.
\<close>

record datetime =
  year :: int
  month :: int
  day :: int
  hour :: int
  minute :: int
  second :: int
  microsecond :: int

definition ts_key :: "datetime \<Rightarrow> int \<times> int \<times> int \<times> int \<times> int \<times> int \<times> int" where
  "ts_key t = (year t, month t, day t, hour t, minute t, second t, microsecond t)"

text \<open>
  The calendar arithmetic of the standard library (\<^verbatim>\<open>datetime.py\<close>), on which the week
  pattern \<^verbatim>\<open>%G-%V\<close> rests. Python's \<^verbatim>\<open>//\<close> and \<^verbatim>\<open>%\<close> round towards minus infinity,
  as \<open>div\<close> and \<open>mod\<close> on \<open>int\<close> do.
\<close>

definition DAYS_IN_MONTH :: "int list" where
  "DAYS_IN_MONTH = [-1, 31, 28, 31, 30, 31, 30, 31, 31, 30, 31, 30, 31]"

definition DAYS_BEFORE_MONTH :: "int list" where
  "DAYS_BEFORE_MONTH = -1 # map (\<lambda>i. sum_list (take i (tl DAYS_IN_MONTH))) [0..<12]"

definition is_leap :: "int \<Rightarrow> bool" where
  "is_leap y = (y mod 4 = 0 \<and> (y mod 100 \<noteq> 0 \<or> y mod 400 = 0))"

definition days_before_year :: "int \<Rightarrow> int" where
  "days_before_year y = (y - 1) * 365 + (y - 1) div 4 - (y - 1) div 100 + (y - 1) div 400"

definition days_in_month :: "int \<Rightarrow> int \<Rightarrow> int" where
  "days_in_month y m = (if m = 2 \<and> is_leap y then 29 else DAYS_IN_MONTH ! nat m)"

definition days_before_month :: "int \<Rightarrow> int \<Rightarrow> int" where
  "days_before_month y m = DAYS_BEFORE_MONTH ! nat m + (if m > 2 \<and> is_leap y then 1 else 0)"

definition ymd2ord :: "int \<Rightarrow> int \<Rightarrow> int \<Rightarrow> int" where
  "ymd2ord y m d = days_before_year y + days_before_month y m + d"

definition isoweek1monday :: "int \<Rightarrow> int" where
  "isoweek1monday y =
     (let firstday = ymd2ord y 1 1;
          firstweekday = (firstday + 6) mod 7;
          week1monday = firstday - firstweekday
      in if firstweekday > 3 then week1monday + 7 else week1monday)"

text \<open>\<^verbatim>\<open>isocalendar\<close>: the ISO year, the ISO week (from 1) and the ISO weekday (from 1).\<close>

definition isocalendar :: "datetime \<Rightarrow> int \<times> int \<times> int" where
  "isocalendar t =
     (let y = year t;
          today = ymd2ord (year t) (month t) (day t);
          week = (today - isoweek1monday y) div 7;
          wd = (today - isoweek1monday y) mod 7
      in if week < 0 then
           ((y - 1), (today - isoweek1monday (y - 1)) div 7 + 1,
            (today - isoweek1monday (y - 1)) mod 7 + 1)
         else if week \<ge> 52 \<and> today \<ge> isoweek1monday (y + 1) then (y + 1, 1, wd + 1)
         else (y, week + 1, wd + 1))"

text \<open>
  The constructor of \<^verbatim>\<open>datetime\<close> refuses fields out of range
  (\<^verbatim>\<open>_check_date_fields\<close>, \<^verbatim>\<open>_check_time_fields\<close>), so every value the program
  holds satisfies \<open>valid_datetime\<close>.
\<close>

definition valid_datetime :: "datetime \<Rightarrow> bool" where
  "valid_datetime t =
     (1 \<le> year t \<and> year t \<le> 9999 \<and> 1 \<le> month t \<and> month t \<le> 12 \<and>
      1 \<le> day t \<and> day t \<le> days_in_month (year t) (month t) \<and>
      0 \<le> hour t \<and> hour t \<le> 23 \<and> 0 \<le> minute t \<and> minute t \<le> 59 \<and>
      0 \<le> second t \<and> second t \<le> 59 \<and> 0 \<le> microsecond t \<and> microsecond t \<le> 999999)"

section \<open>Formatting a timestamp\<close>

text \<open>
  \<^verbatim>\<open>strftime\<close> for the directives that occur in \<^verbatim>\<open>TIME_PATTERNS\<close>: each writes a
  number in decimal, filled with zeros on the left up to its width (four for \<^verbatim>\<open>%Y\<close> and
  \<^verbatim>\<open>%G\<close>, as the documentation of the library has it, two for the others). Some C
  libraries write a year below 1000 without the zeros; nothing proved below depends on the
  width, only on the digits being those of the number. Any other directive is copied as it
  stands.
\<close>

definition digit_char :: "nat \<Rightarrow> char" where
  "digit_char d = ''0123456789'' ! d"

fun digits_of :: "nat \<Rightarrow> string" where
  "digits_of n = (if n < 10 then [digit_char n] else digits_of (n div 10) @ [digit_char (n mod 10)])"

declare digits_of.simps [simp del]

definition pad :: "nat \<Rightarrow> int \<Rightarrow> string" where
  "pad w n = replicate (w - length (digits_of (nat n))) (CHR ''0'') @ digits_of (nat n)"

definition directive :: "char \<Rightarrow> datetime \<Rightarrow> string" where
  "directive c t =
     (if c = CHR ''Y'' then pad 4 (year t)
      else if c = CHR ''m'' then pad 2 (month t)
      else if c = CHR ''d'' then pad 2 (day t)
      else if c = CHR ''H'' then pad 2 (hour t)
      else if c = CHR ''M'' then pad 2 (minute t)
      else if c = CHR ''S'' then pad 2 (second t)
      else if c = CHR ''G'' then pad 4 (fst (isocalendar t))
      else if c = CHR ''V'' then pad 2 (fst (snd (isocalendar t)))
      else [CHR ''%'', c])"

fun strftime :: "string \<Rightarrow> datetime \<Rightarrow> string" where
  "strftime [] t = []"
| "strftime [c] t = [c]"
| "strftime (c # d # fmt) t =
     (if c = CHR ''%'' then directive d t @ strftime fmt t else c # strftime (d # fmt) t)"

text \<open>The table of granularities, in the order the source lists them.\<close>

definition TIME_PATTERNS :: "(string \<times> string) list" where
  "TIME_PATTERNS =
     [(''s'', ''%Y-%m-%d %H:%M:%S''),
      (''min'', ''%Y-%m-%d %H:%M''),
      (''h'', ''%Y-%m-%d %H''),
      (''d'', ''%Y-%m-%d''),
      (''w'', ''%G-%V''),
      (''mon'', ''%Y-%m''),
      (''y'', ''%Y'')]"

section \<open>Archives, keep rules and the selection\<close>

record archive =
  name :: string
  timestamp :: datetime

record keepspec =
  timepattern :: string
  num :: int

text \<open>
  \<^verbatim>\<open>arc_names_to_keep\<close> is a generator; the model is the list of the names it yields when
  run to its end. The loop carries the counter \<open>n\<close> and \<open>prev_ts\<close> (\<open>None\<close> at the start).
\<close>

fun keep_loop :: "keepspec \<Rightarrow> int \<Rightarrow> string option \<Rightarrow> archive list \<Rightarrow> string list" where
  "keep_loop ks n prev_ts [] = []"
| "keep_loop ks n prev_ts (arc # arcs) =
     (if n = num ks then []
      else if Some (strftime (timepattern ks) (timestamp arc)) \<noteq> prev_ts
        then name arc # keep_loop ks (n + 1) (Some (strftime (timepattern ks) (timestamp arc))) arcs
        else keep_loop ks n prev_ts arcs)"

definition arc_names_to_keep :: "archive list \<Rightarrow> keepspec \<Rightarrow> string list" where
  "arc_names_to_keep arcs ks = keep_loop ks 0 None arcs"

text \<open>
  \<^verbatim>\<open>arcs.sort(key=attrgetter('timestamp'), reverse=True)\<close>: a stable sort in descending
  order, in which elements with equal keys keep their order. It is the reverse of the stable
  ascending sort of the reversed list.
\<close>

definition sort_desc :: "archive list \<Rightarrow> archive list" where
  "sort_desc arcs = rev (sort_key (\<lambda>a. ts_key (timestamp a)) (rev arcs))"

text \<open>
  \<^verbatim>\<open>arc_names_to_delete\<close> sorts the list it is given in place, so the model returns the
  list as the call leaves it together with the names yielded.
\<close>

definition arc_names_to_delete_st ::
  "archive list \<Rightarrow> keepspec list \<Rightarrow> archive list \<times> string list" where
  "arc_names_to_delete_st arcs kss =
     (let arcs' = sort_desc arcs;
          keep = fold (\<lambda>ks keep. fold insert (arc_names_to_keep arcs' ks) keep) kss {}
      in (arcs', map name (filter (\<lambda>arc. name arc \<notin> keep) arcs')))"

definition arc_names_to_delete :: "archive list \<Rightarrow> keepspec list \<Rightarrow> string list" where
  "arc_names_to_delete arcs kss = snd (arc_names_to_delete_st arcs kss)"

section \<open>Errors\<close>

text \<open>
  The exceptions the parsers can raise. \<open>RuntimeError\<close> carries the message the source builds;
  a \<open>ValueError\<close> of the interpreter or the library carries what that error is about.
\<close>

datatype value_error =
    NotEnoughValues nat
  | TooManyValues
  | TimeDataMismatch string
  | UnconvertedData string
  | FieldOutOfRange
  | InvalidLiteral string

datatype error = RuntimeError string | ValueError value_error | KeyError string | TypeError

definition bnd :: "error + 'a \<Rightarrow> ('a \<Rightarrow> error + 'b) \<Rightarrow> error + 'b" where
  "bnd m f = (case m of Inl e \<Rightarrow> Inl e | Inr x \<Rightarrow> f x)"

section \<open>Regular expressions\<close>

text \<open>
  A backtracking matcher for the constructs the program's patterns use. \<open>rmatch r (s, g)\<close>
  lists, in the order a backtracking engine tries them, the states in which \<open>r\<close> can leave
  the input \<open>s\<close> and the groups \<open>g\<close>: the rest of the input and the groups captured so far.
  \<^verbatim>\<open>fullmatch\<close> answers with the first state that has consumed the whole input,
  \<^verbatim>\<open>match\<close> with the first state.
\<close>

datatype atom = Chr char | Cls "char list" | Dot

fun amatch :: "atom \<Rightarrow> char \<Rightarrow> bool" where
  "amatch (Chr a) c = (c = a)"
| "amatch (Cls cs) c = (c \<in> set cs)"
| "amatch Dot c = (c \<noteq> CHR 0x0A)"

datatype rx =
    Atom atom
  | Str string
  | Seq rx rx
  | Alt rx rx
  | Star atom
  | LazyStar atom
  | Plus atom
  | Opt rx
  | Grp nat rx

type_synonym mstate = "string \<times> (nat \<times> string) list"

fun star_greedy :: "atom \<Rightarrow> string \<Rightarrow> string list" where
  "star_greedy a [] = [[]]"
| "star_greedy a (c # cs) = (if amatch a c then star_greedy a cs @ [c # cs] else [c # cs])"

fun star_lazy :: "atom \<Rightarrow> string \<Rightarrow> string list" where
  "star_lazy a [] = [[]]"
| "star_lazy a (c # cs) = (c # cs) # (if amatch a c then star_lazy a cs else [])"

fun rmatch :: "rx \<Rightarrow> mstate \<Rightarrow> mstate list" where
  "rmatch (Atom a) (s, g) =
     (case s of [] \<Rightarrow> [] | c # cs \<Rightarrow> if amatch a c then [(cs, g)] else [])"
| "rmatch (Str w) (s, g) = (if take (length w) s = w then [(drop (length w) s, g)] else [])"
| "rmatch (Seq r1 r2) st = concat (map (rmatch r2) (rmatch r1 st))"
| "rmatch (Alt r1 r2) st = rmatch r1 st @ rmatch r2 st"
| "rmatch (Star a) (s, g) = map (\<lambda>s'. (s', g)) (star_greedy a s)"
| "rmatch (LazyStar a) (s, g) = map (\<lambda>s'. (s', g)) (star_lazy a s)"
| "rmatch (Plus a) (s, g) =
     (case s of [] \<Rightarrow> [] | c # cs \<Rightarrow>
        if amatch a c then map (\<lambda>s'. (s', g)) (star_greedy a cs) else [])"
| "rmatch (Opt r) st = rmatch r st @ [st]"
| "rmatch (Grp n r) (s, g) =
     map (\<lambda>(s', g'). (s', (n, take (length s - length s') s) # g')) (rmatch r (s, g))"

definition re_fullmatch :: "rx \<Rightarrow> string \<Rightarrow> mstate option" where
  "re_fullmatch r s = find (\<lambda>st. fst st = []) (rmatch r (s, []))"

definition re_match :: "rx \<Rightarrow> string \<Rightarrow> mstate option" where
  "re_match r s = (case rmatch r (s, []) of [] \<Rightarrow> None | st # _ \<Rightarrow> Some st)"

definition group :: "mstate \<Rightarrow> nat \<Rightarrow> string option" where
  "group m n = map_of (snd m) n"

fun seqs :: "rx list \<Rightarrow> rx" where
  "seqs [] = Str []"
| "seqs [r] = r"
| "seqs (r # rs) = Seq r (seqs rs)"

fun alts :: "rx list \<Rightarrow> rx" where
  "alts [] = Atom (Cls [])"
| "alts [r] = r"
| "alts (r # rs) = Alt r (alts rs)"

definition digit_chars :: string where
  "digit_chars = ''0123456789''"

definition digit :: atom where
  "digit = Cls digit_chars"

definition run_chars :: string where
  "run_chars = ''0123456789-''"

text \<open>\<^verbatim>\<open>KEEP_SPEC_PATTERN\<close>: \<^verbatim>\<open>(\d+)(s|min|h|d|w|mon|y)\<close>, the alternatives joined from the keys
  of the table.\<close>

definition KEEP_SPEC_PATTERN :: rx where
  "KEEP_SPEC_PATTERN = Seq (Grp 1 (Plus digit)) (Grp 2 (alts (map (Str \<circ> fst) TIME_PATTERNS)))"

text \<open>\<^verbatim>\<open>NAME_RE\<close>: \<^verbatim>\<open>(.*?)(?:-[0-9-]*)?\<close>.\<close>

definition NAME_RE :: rx where
  "NAME_RE = Seq (Grp 1 (LazyStar Dot)) (Opt (Seq (Atom (Chr (CHR ''-''))) (Star (Cls run_chars))))"

section \<open>Strings of the standard library\<close>

text \<open>
  A string is a list of characters, a character one of the first 256 code points. Among
  these the decimal digits, for \<^verbatim>\<open>\d\<close> as for \<^verbatim>\<open>int\<close>, are \<open>0\<close> to \<open>9\<close>.
\<close>

definition is_digit :: "char \<Rightarrow> bool" where
  "is_digit c = (c \<in> set digit_chars)"

text \<open>White space among the first 256 code points, as \<^verbatim>\<open>str.isspace\<close> and \<^verbatim>\<open>\s\<close> see it.\<close>

definition whitespace :: "char list" where
  "whitespace = [CHR 0x09, CHR 0x0A, CHR 0x0B, CHR 0x0C, CHR 0x0D, CHR 0x1C, CHR 0x1D, CHR 0x1E,
     CHR 0x1F, CHR 0x20, CHR 0x85, CHR 0xA0]"

text \<open>The line boundaries of \<^verbatim>\<open>str.splitlines\<close> among the first 256 code points.\<close>

definition linebreaks :: "char list" where
  "linebreaks = [CHR 0x0A, CHR 0x0B, CHR 0x0C, CHR 0x0D, CHR 0x1C, CHR 0x1D, CHR 0x1E, CHR 0x85]"

text \<open>
  \<^verbatim>\<open>str.splitlines()\<close>: \<open>cur\<close> is the line being read; \<open>skip\<close> says that the last
  character was a carriage return, so that a line feed right after it belongs to the same
  boundary. A last line that is empty is not reported.
\<close>

fun splitlines_from :: "bool \<Rightarrow> string \<Rightarrow> string \<Rightarrow> string list" where
  "splitlines_from skip cur [] = (if cur = [] then [] else [cur])"
| "splitlines_from skip cur (c # cs) =
     (if skip \<and> c = CHR 0x0A then splitlines_from False cur cs
      else if c \<in> set linebreaks then cur # splitlines_from (c = CHR 0x0D) [] cs
      else splitlines_from False (cur @ [c]) cs)"

definition splitlines :: "string \<Rightarrow> string list" where
  "splitlines s = splitlines_from False [] s"

text \<open>\<^verbatim>\<open>s.split(sep)\<close> for a separator of one character: never an empty list.\<close>

fun split_on :: "char \<Rightarrow> string \<Rightarrow> string list" where
  "split_on sep [] = [[]]"
| "split_on sep (c # cs) =
     (if c = sep then [] # split_on sep cs
      else (case split_on sep cs of [] \<Rightarrow> [[c]] | f # fs \<Rightarrow> (c # f) # fs))"

definition rstrip_chr :: "char \<Rightarrow> string \<Rightarrow> string" where
  "rstrip_chr c s = rev (dropWhile (\<lambda>x. x = c) (rev s))"

definition strip :: "string \<Rightarrow> string" where
  "strip s = rev (dropWhile (\<lambda>c. c \<in> set whitespace) (rev (dropWhile (\<lambda>c. c \<in> set whitespace) s)))"

definition digit_val :: "char \<Rightarrow> nat" where
  "digit_val c = of_char c - 48"

definition nat_of_digits :: "string \<Rightarrow> nat" where
  "nat_of_digits s = foldl (\<lambda>n c. 10 * n + digit_val c) 0 s"

text \<open>
  \<^verbatim>\<open>int(s)\<close> on the strings the parsers pass to it: decimal digits, white space around them
  allowed. (Signs and underscores, which no caller here can pass, are not modelled, nor is the
  interpreter's optional limit on the number of digits.)
\<close>

definition py_int :: "string \<Rightarrow> error + int" where
  "py_int s =
     (if strip s \<noteq> [] \<and> list_all is_digit (strip s) then Inr (int (nat_of_digits (strip s)))
      else Inl (ValueError (InvalidLiteral s)))"

definition group_int :: "mstate \<Rightarrow> nat \<Rightarrow> error + int" where
  "group_int m n = (case group m n of None \<Rightarrow> Inl TypeError | Some s \<Rightarrow> py_int s)"

section \<open>Parsing a timestamp\<close>

text \<open>
  \<^verbatim>\<open>datetime.strptime(ts_str, "%Y-%m-%d %H:%M:%S")\<close>. The library turns the format into the
  regular expression below (a blank of the format stands for one or more white-space
  characters), matches it at the start of the data, refuses data that goes on after the
  match, and hands the numbers to the constructor of \<^verbatim>\<open>datetime\<close>, which checks their
  ranges.
\<close>

definition STRPTIME_RE :: rx where
  "STRPTIME_RE = seqs
     [Grp 1 (seqs [Atom digit, Atom digit, Atom digit, Atom digit]),
      Atom (Chr (CHR ''-'')),
      Grp 2 (alts [Seq (Atom (Chr (CHR ''1''))) (Atom (Cls ''012'')),
                   Seq (Atom (Chr (CHR ''0''))) (Atom (Cls ''123456789'')),
                   Atom (Cls ''123456789'')]),
      Atom (Chr (CHR ''-'')),
      Grp 3 (alts [Seq (Atom (Chr (CHR ''3''))) (Atom (Cls ''01'')),
                   Seq (Atom (Cls ''12'')) (Atom digit),
                   Seq (Atom (Chr (CHR ''0''))) (Atom (Cls ''123456789'')),
                   Atom (Cls ''123456789''),
                   Seq (Atom (Chr (CHR '' ''))) (Atom (Cls ''123456789''))]),
      Plus (Cls whitespace),
      Grp 4 (alts [Seq (Atom (Chr (CHR ''2''))) (Atom (Cls ''0123'')),
                   Seq (Atom (Cls ''01'')) (Atom digit),
                   Atom digit]),
      Atom (Chr (CHR '':'')),
      Grp 5 (alts [Seq (Atom (Cls ''012345'')) (Atom digit), Atom digit]),
      Atom (Chr (CHR '':'')),
      Grp 6 (alts [Seq (Atom (Chr (CHR ''6''))) (Atom (Cls ''01'')),
                   Seq (Atom (Cls ''012345'')) (Atom digit),
                   Atom digit])]"

definition datetime_new ::
  "int \<Rightarrow> int \<Rightarrow> int \<Rightarrow> int \<Rightarrow> int \<Rightarrow> int \<Rightarrow> int \<Rightarrow> error + datetime" where
  "datetime_new y m d H M S us =
     (if valid_datetime \<lparr>year = y, month = m, day = d, hour = H, minute = M, second = S,
                         microsecond = us\<rparr>
      then Inr \<lparr>year = y, month = m, day = d, hour = H, minute = M, second = S,
                 microsecond = us\<rparr>
      else Inl (ValueError FieldOutOfRange))"

definition strptime :: "string \<Rightarrow> error + datetime" where
  "strptime data =
     (case re_match STRPTIME_RE data of
        None \<Rightarrow> Inl (ValueError (TimeDataMismatch data))
      | Some found \<Rightarrow>
          if fst found \<noteq> [] then Inl (ValueError (UnconvertedData (fst found)))
          else bnd (group_int found 1) (\<lambda>y.
               bnd (group_int found 2) (\<lambda>m.
               bnd (group_int found 3) (\<lambda>d.
               bnd (group_int found 4) (\<lambda>H.
               bnd (group_int found 5) (\<lambda>M.
               bnd (group_int found 6) (\<lambda>S. datetime_new y m d H M S 0)))))))"

section \<open>The parsers\<close>

definition quoted :: "string \<Rightarrow> string" where
  "quoted s = [CHR 0x27] @ s @ [CHR 0x27]"

text \<open>
  \<^verbatim>\<open>result[base].append(...)\<close> on a \<^verbatim>\<open>defaultdict(list)\<close>: a key not yet present
  starts with the empty list and goes to the end of the dictionary.
\<close>

definition dd_append ::
  "(string \<times> archive list) list \<Rightarrow> string \<Rightarrow> archive \<Rightarrow> (string \<times> archive list) list" where
  "dd_append result k v =
     AList.update k ((case map_of result k of None \<Rightarrow> [] | Some vs \<Rightarrow> vs) @ [v]) result"

text \<open>
  The body of the loop of \<^verbatim>\<open>parse_arcs\<close> for one line. Unpacking the fields into two
  names fails unless there are exactly two. Group 1 of \<^verbatim>\<open>NAME_RE\<close> takes part in every
  match, so the last case is never taken.
\<close>

definition parse_line :: "string \<Rightarrow> error + string \<times> archive" where
  "parse_line line0 =
     (let line = rstrip_chr (CHR 0x0A) line0 in
      case split_on (CHR 0x09) line of
        [nm, ts_str] \<Rightarrow>
          bnd (strptime ts_str) (\<lambda>ts.
            case re_fullmatch NAME_RE nm of
              None \<Rightarrow> Inl (RuntimeError (''failed to parse line '' @ quoted line))
            | Some m \<Rightarrow>
                (case group m 1 of
                   Some base \<Rightarrow> Inr (base, \<lparr>name = nm, timestamp = ts\<rparr>)
                 | None \<Rightarrow> Inl TypeError))
      | fs \<Rightarrow>
          Inl (ValueError (if length fs < 2 then NotEnoughValues (length fs) else TooManyValues)))"

fun parse_arcs_loop ::
  "string list \<Rightarrow> (string \<times> archive list) list \<Rightarrow> error + (string \<times> archive list) list" where
  "parse_arcs_loop [] result = Inr result"
| "parse_arcs_loop (line # lines) result =
     (case parse_line line of
        Inl e \<Rightarrow> Inl e
      | Inr (base, arc) \<Rightarrow> parse_arcs_loop lines (dd_append result base arc))"

definition parse_arcs :: "string \<Rightarrow> error + (string \<times> archive list) list" where
  "parse_arcs listing = parse_arcs_loop (splitlines listing) []"

text \<open>The body of the loop of \<^verbatim>\<open>parse_keep_specs\<close> for one token.\<close>

definition parse_keep_spec :: "string \<Rightarrow> error + keepspec" where
  "parse_keep_spec s =
     (case re_fullmatch KEEP_SPEC_PATTERN s of
        Some m \<Rightarrow>
          (case group m 2 of
             None \<Rightarrow> Inl TypeError
           | Some tag \<Rightarrow>
               (case map_of TIME_PATTERNS tag of
                  None \<Rightarrow> Inl (KeyError tag)
                | Some pat \<Rightarrow> bnd (group_int m 1) (\<lambda>n. Inr \<lparr>timepattern = pat, num = n\<rparr>)))
      | None \<Rightarrow> Inl (RuntimeError (''invalid keep spec: '' @ quoted s)))"

fun parse_keep_specs_loop :: "string list \<Rightarrow> keepspec list \<Rightarrow> error + keepspec list" where
  "parse_keep_specs_loop [] result = Inr result"
| "parse_keep_specs_loop (s # ss) result =
     (case parse_keep_spec s of
        Inl e \<Rightarrow> Inl e
      | Inr ks \<Rightarrow> parse_keep_specs_loop ss (result @ [ks]))"

definition parse_keep_specs :: "string \<Rightarrow> error + keepspec list" where
  "parse_keep_specs spec = parse_keep_specs_loop (split_on (CHR '','') spec) []"

section \<open>The patterns under test\<close>

text \<open>\<^verbatim>\<open>_fmt\<close> of the test suite: both dates formatted with the pattern of a granularity.\<close>

definition fmt :: "string \<Rightarrow> datetime \<Rightarrow> datetime \<Rightarrow> error + string \<times> string" where
  "fmt key d1 d2 =
     (case map_of TIME_PATTERNS key of
        None \<Rightarrow> Inl (KeyError key)
      | Some pattern \<Rightarrow> Inr (strftime pattern d1, strftime pattern d2))"

section \<open>What the deletion is compared with\<close>

text \<open>The names some rule of the list retains.\<close>

definition retained_union :: "archive list \<Rightarrow> keepspec list \<Rightarrow> string set" where
  "retained_union arcs kss = (\<Union>ks\<in>set kss. set (arc_names_to_keep arcs ks))"

definition sorted_desc :: "archive list \<Rightarrow> bool" where
  "sorted_desc arcs = sorted_wrt (\<lambda>a b. ts_key (timestamp a) \<ge> ts_key (timestamp b)) arcs"

text \<open>
  The deletion as the specification words it: the names that no rule retains, in the order
  in which the caller passed the archives.
\<close>

definition names_to_delete_in_input_order :: "archive list \<Rightarrow> keepspec list \<Rightarrow> string list" where
  "names_to_delete_in_input_order arcs kss =
     map name (filter (\<lambda>a. name a \<notin> retained_union (sort_desc arcs) kss) arcs)"

section \<open>Data of the test suite\<close>

text \<open>\<^verbatim>\<open>datetime(y, m, d)\<close> and the helper \<^verbatim>\<open>arc\<close> of the tests.\<close>

definition test_date :: "int \<Rightarrow> int \<Rightarrow> int \<Rightarrow> datetime" where
  "test_date y m d =
     \<lparr>year = y, month = m, day = d, hour = 0, minute = 0, second = 0, microsecond = 0\<rparr>"

definition test_arc :: "string \<Rightarrow> int \<Rightarrow> int \<Rightarrow> int \<Rightarrow> archive" where
  "test_arc n y m d = \<lparr>name = n, timestamp = test_date y m d\<rparr>"

text \<open>The archives and rules of \<^verbatim>\<open>test_arc_names_to_delete\<close>, and the archives once sorted.\<close>

definition test_arcs :: "archive list" where
  "test_arcs = [test_arc ''4'' 1999 1 2, test_arc ''5'' 1999 1 1, test_arc ''6'' 1998 1 1,
                test_arc ''1'' 2000 1 31, test_arc ''2'' 2000 1 30, test_arc ''3'' 2000 1 29]"

definition test_arcs_sorted :: "archive list" where
  "test_arcs_sorted = [test_arc ''1'' 2000 1 31, test_arc ''2'' 2000 1 30, test_arc ''3'' 2000 1 29,
     test_arc ''4'' 1999 1 2, test_arc ''5'' 1999 1 1, test_arc ''6'' 1998 1 1]"

definition test_kss :: "keepspec list" where
  "test_kss = [\<lparr>timepattern = ''%Y-%m-%d'', num = 2\<rparr>, \<lparr>timepattern = ''%Y'', num = 2\<rparr>]"

section \<open>The base name of an archive\<close>

text \<open>The family key that \<^verbatim>\<open>parse_arcs\<close> derives from a name: group 1 of \<^verbatim>\<open>NAME_RE\<close>.\<close>

definition base_name :: "string \<Rightarrow> string option" where
  "base_name nm = (case re_fullmatch NAME_RE nm of None \<Rightarrow> None | Some m \<Rightarrow> group m 1)"

text \<open>
  The trailing run of the specification: nothing at all, or a dash followed by digits and
  dashes only.
\<close>

definition is_suffix_run :: "string \<Rightarrow> bool" where
  "is_suffix_run r =
     (case r of [] \<Rightarrow> True | c # t \<Rightarrow> c = CHR ''-'' \<and> list_all (\<lambda>x. x \<in> set run_chars) t)"

text \<open>
  The search that the lazy \<^verbatim>\<open>.*?\<close> performs: the shortest prefix, free of line feeds, after
  which only a trailing run is left.
\<close>

fun strip_run :: "string \<Rightarrow> string option" where
  "strip_run [] = Some []"
| "strip_run (c # cs) =
     (if is_suffix_run (c # cs) then Some []
      else if c = CHR 0x0A then None
      else map_option (Cons c) (strip_run cs))"

text \<open>\<open>binds r n\<close>: every way of matching \<open>r\<close> passes through group \<open>n\<close>.\<close>

fun binds :: "rx \<Rightarrow> nat \<Rightarrow> bool" where
  "binds (Grp k r) n = (k = n \<or> binds r n)"
| "binds (Seq r1 r2) n = (binds r1 n \<or> binds r2 n)"
| "binds (Alt r1 r2) n = (binds r1 n \<and> binds r2 n)"
| "binds r n = False"

section \<open>Lines of a listing\<close>

text \<open>
  A well-formed line: exactly two fields between tabs, the second of which
  \<^verbatim>\<open>strptime\<close> accepts.
\<close>

definition line_ok :: "string \<Rightarrow> bool" where
  "line_ok line =
     (case split_on (CHR 0x09) line of
        [nm, ts_str] \<Rightarrow> (case strptime ts_str of Inr t \<Rightarrow> True | Inl e \<Rightarrow> False)
      | fs \<Rightarrow> False)"

text \<open>The archives of the lines that parse, in the order of the lines, each with its key.\<close>

definition line_entries :: "string list \<Rightarrow> (string \<times> archive) list" where
  "line_entries lines =
     List.map_filter (\<lambda>l. case parse_line l of Inr p \<Rightarrow> Some p | Inl e \<Rightarrow> None) lines"

definition listed_archives :: "string \<Rightarrow> archive list" where
  "listed_archives listing = map snd (line_entries (splitlines listing))"

text \<open>The error of \<^verbatim>\<open>parse_arcs\<close> that names a line.\<close>

definition failed_to_parse_line :: "string \<Rightarrow> error" where
  "failed_to_parse_line line = RuntimeError (''failed to parse line '' @ quoted line)"

text \<open>The listing of \<^verbatim>\<open>test_parse_arcs\<close> and the dictionary expected for it.\<close>

definition test_listing :: string where
  "test_listing =
     ''foo'' @ [CHR 0x09] @ ''2000-01-01 00:00:00'' @ [CHR 0x0A] @
     ''foo-123'' @ [CHR 0x09] @ ''1999-02-02 03:00:00'' @ [CHR 0x0A] @
     ''bar-123'' @ [CHR 0x09] @ ''1999-02-02 03:00:00'' @ [CHR 0x0A]"

definition test_time :: "int \<Rightarrow> int \<Rightarrow> int \<Rightarrow> int \<Rightarrow> datetime" where
  "test_time y m d H =
     \<lparr>year = y, month = m, day = d, hour = H, minute = 0, second = 0, microsecond = 0\<rparr>"

definition test_families :: "(string \<times> archive list) list" where
  "test_families =
     [(''foo'', [\<lparr>name = ''foo'', timestamp = test_time 2000 1 1 0\<rparr>,
                 \<lparr>name = ''foo-123'', timestamp = test_time 1999 2 2 3\<rparr>]),
      (''bar'', [\<lparr>name = ''bar-123'', timestamp = test_time 1999 2 2 3\<rparr>])]"

definition bad_listing :: string where
  "bad_listing = ''foo'' @ [CHR 0x09] @ ''bar''"

section \<open>Tokens of a policy\<close>




section \<open>Periods\<close>

text \<open>
  A pattern whose periods are intervals of time: a timestamp between two timestamps that are
  formatted alike is formatted like them.
\<close>

definition convex_pattern :: "string \<Rightarrow> bool" where
  "convex_pattern p =
     (\<forall>t1 t2 t3. valid_datetime t1 \<and> valid_datetime t2 \<and> valid_datetime t3 \<and>
        ts_key t3 \<le> ts_key t2 \<and> ts_key t2 \<le> ts_key t1 \<and> strftime p t1 = strftime p t3 \<longrightarrow>
        strftime p t2 = strftime p t1)"

text \<open>The bucket key of an archive under a rule.\<close>

definition bucket :: "keepspec \<Rightarrow> archive \<Rightarrow> string" where
  "bucket ks a = strftime (timepattern ks) (timestamp a)"

text \<open>
  The archives whose names \<^verbatim>\<open>arc_names_to_keep\<close> yields: the same loop, yielding the archive
  in place of its name.
\<close>

fun kept_loop :: "keepspec \<Rightarrow> int \<Rightarrow> string option \<Rightarrow> archive list \<Rightarrow> archive list" where
  "kept_loop ks n prev_ts [] = []"
| "kept_loop ks n prev_ts (arc # arcs) =
     (if n = num ks then []
      else if Some (strftime (timepattern ks) (timestamp arc)) \<noteq> prev_ts
        then arc # kept_loop ks (n + 1) (Some (strftime (timepattern ks) (timestamp arc))) arcs
        else kept_loop ks n prev_ts arcs)"

definition arcs_to_keep :: "archive list \<Rightarrow> keepspec \<Rightarrow> archive list" where
  "arcs_to_keep arcs ks = kept_loop ks 0 None arcs"

text \<open>The archives and the rule of \<^verbatim>\<open>test_arc_names_to_keep\<close>.\<close>

definition test_keep_arcs :: "archive list" where
  "test_keep_arcs = [test_arc ''1'' 2000 3 15, test_arc ''2'' 2000 3 1, test_arc ''3'' 2000 2 15,
                     test_arc ''4'' 2000 2 1, test_arc ''5'' 2000 1 15]"

definition test_keep_ks :: keepspec where
  "test_keep_ks = \<lparr>timepattern = ''%Y-%m'', num = 2\<rparr>"

section \<open>The calendar at the turn of 2008\<close>

lemma DAYS_BEFORE_MONTH_eq:
  "DAYS_BEFORE_MONTH = [- 1, 0, 31, 59, 90, 120, 151, 181, 212, 243, 273, 304, 334]"
  by (simp add: DAYS_BEFORE_MONTH_def DAYS_IN_MONTH_def upt_rec)

lemma ymd2ord_2008_12: "ymd2ord 2008 12 d = 733376 + d"
  by (simp add: ymd2ord_def days_before_year_def days_before_month_def DAYS_BEFORE_MONTH_eq
      is_leap_def)

lemma isoweek1monday_2008: "isoweek1monday 2008 = 733041"
  by (simp add: isoweek1monday_def ymd2ord_def days_before_year_def days_before_month_def
      DAYS_BEFORE_MONTH_eq is_leap_def)

lemma isoweek1monday_2009: "isoweek1monday 2009 = 733405"
  by (simp add: isoweek1monday_def ymd2ord_def days_before_year_def days_before_month_def
      DAYS_BEFORE_MONTH_eq is_leap_def)

lemma isocalendar_2008_12_28:
  "isocalendar (t\<lparr>year := 2008, month := 12, day := 28\<rparr>) = (2008, 52, 7)"
  by (simp add: isocalendar_def ymd2ord_2008_12 isoweek1monday_2008 isoweek1monday_2009)

lemma isocalendar_2008_12_29:
  "isocalendar (t\<lparr>year := 2008, month := 12, day := 29\<rparr>) = (2009, 1, 1)"
  by (simp add: isocalendar_def ymd2ord_2008_12 isoweek1monday_2008 isoweek1monday_2009)

lemma isocalendar_2008_12_30:
  "isocalendar (t\<lparr>year := 2008, month := 12, day := 30\<rparr>) = (2009, 1, 2)"
  by (simp add: isocalendar_def ymd2ord_2008_12 isoweek1monday_2008 isoweek1monday_2009)

lemma pad_2008_values:
  "pad 4 2008 = ''2008''" "pad 4 2009 = ''2009''" "pad 2 52 = ''52''" "pad 2 1 = ''01''"
  by (simp_all add: pad_def digits_of.simps digit_char_def)

lemma strftime_week:
  "strftime ''%G-%V'' t = pad 4 (fst (isocalendar t)) @ ''-'' @ pad 2 (fst (snd (isocalendar t)))"
  by (simp add: directive_def)

text \<open>
  C7. With the week pattern, 29 and 30 December 2008 are formatted alike (both lie in week 1
  of ISO year 2009), whatever the time of day, while 28 December 2008 (week 52 of 2008) and
  29 December 2008 are formatted differently.
\<close>

theorem week_boundary:
  "fmt ''w'' (t1\<lparr>year := 2008, month := 12, day := 29\<rparr>) (t2\<lparr>year := 2008, month := 12, day := 30\<rparr>)
     = Inr (''2009-01'', ''2009-01'') \<and>
   fmt ''w'' (t3\<lparr>year := 2008, month := 12, day := 28\<rparr>) (t4\<lparr>year := 2008, month := 12, day := 29\<rparr>)
     = Inr (''2008-52'', ''2009-01'') \<and>
   ''2008-52'' \<noteq> ''2009-01''"
  by (simp add: fmt_def TIME_PATTERNS_def strftime_week isocalendar_2008_12_28
      isocalendar_2008_12_29 isocalendar_2008_12_30 pad_2008_values del: strftime.simps)

theorem week_boundary_witness:
  "fmt ''w'' \<lparr>year = 2008, month = 12, day = 29, hour = 3, minute = 4, second = 5, microsecond = 0\<rparr>
             \<lparr>year = 2008, month = 12, day = 30, hour = 4, minute = 5, second = 6, microsecond = 0\<rparr>
     = Inr (''2009-01'', ''2009-01'') \<and>
   fmt ''w'' \<lparr>year = 2008, month = 12, day = 28, hour = 0, minute = 0, second = 0, microsecond = 0\<rparr>
             \<lparr>year = 2008, month = 12, day = 29, hour = 0, minute = 0, second = 0, microsecond = 0\<rparr>
     = Inr (''2008-52'', ''2009-01'')"
  using week_boundary
    [of "\<lparr>year = 2008, month = 12, day = 29, hour = 3, minute = 4, second = 5, microsecond = 0\<rparr>"
        "\<lparr>year = 2008, month = 12, day = 30, hour = 4, minute = 5, second = 6, microsecond = 0\<rparr>"
        "\<lparr>year = 2008, month = 12, day = 28, hour = 0, minute = 0, second = 0, microsecond = 0\<rparr>"
        "\<lparr>year = 2008, month = 12, day = 29, hour = 0, minute = 0, second = 0, microsecond = 0\<rparr>"]
  by simp

section \<open>The deletion in terms of the sorted list\<close>

lemma keep_fold:
  "fold (\<lambda>ks keep. fold insert (f ks) keep) kss K = K \<union> (\<Union>ks\<in>set kss. set (f ks))"
proof (induction kss arbitrary: K)
  case Nil
  show ?case by simp
next
  case (Cons ks kss)
  have "fold insert (f ks) K = set (f ks) \<union> K"
    by (simp add: union_set_fold)
  with Cons show ?case by auto
qed

lemma arc_names_to_delete_st_eq:
  "arc_names_to_delete_st arcs kss =
     (sort_desc arcs,
      map name (filter (\<lambda>a. name a \<notin> retained_union (sort_desc arcs) kss) (sort_desc arcs)))"
  by (simp add: arc_names_to_delete_st_def retained_union_def keep_fold Let_def)

lemma sorted_desc_iff: "sorted_desc arcs = sorted (map (\<lambda>a. ts_key (timestamp a)) (rev arcs))"
  by (simp add: sorted_desc_def sorted_wrt_rev rev_map sorted_wrt_map)

lemma sorted_desc_sort_desc: "sorted_desc (sort_desc arcs)"
  by (simp add: sorted_desc_iff sort_desc_def)

lemma sort_desc_id: "sorted_desc arcs \<Longrightarrow> sort_desc arcs = arcs"
  by (simp add: sorted_desc_iff sort_desc_def sort_key_id_if_sorted)

lemma sort_desc_idem: "sort_desc (sort_desc arcs) = sort_desc arcs"
  by (rule sort_desc_id [OF sorted_desc_sort_desc])

lemma mset_sort_desc: "mset (sort_desc arcs) = mset arcs"
  by (simp add: sort_desc_def)

lemma set_sort_desc: "set (sort_desc arcs) = set arcs"
  by (simp add: sort_desc_def)

section \<open>The test of the deletion, evaluated\<close>

lemma ts_key_test_arc: "ts_key (timestamp (test_arc n y m d)) = (y, m, d, 0, 0, 0, 0)"
  by (simp add: test_arc_def test_date_def ts_key_def)

lemma sort_desc_test_arcs: "sort_desc test_arcs = test_arcs_sorted"
  by (simp add: sort_desc_def test_arcs_def test_arcs_sorted_def ts_key_test_arc)

lemma sorted_desc_test_arcs_sorted: "sorted_desc test_arcs_sorted"
  using sorted_desc_sort_desc [of test_arcs] by (simp add: sort_desc_test_arcs)

lemma strftime_day:
  "strftime ''%Y-%m-%d'' t = pad 4 (year t) @ ''-'' @ pad 2 (month t) @ ''-'' @ pad 2 (day t)"
  by (simp add: directive_def)

lemma strftime_year: "strftime ''%Y'' t = pad 4 (year t)"
  by (simp add: directive_def)

lemma pad_test_values:
  "pad 4 2000 = ''2000''" "pad 4 1999 = ''1999''" "pad 4 1998 = ''1998''"
  "pad 2 1 = ''01''" "pad 2 2 = ''02''" "pad 2 29 = ''29''" "pad 2 30 = ''30''" "pad 2 31 = ''31''"
  by (simp_all add: pad_def digits_of.simps digit_char_def)

lemma test_arc_sel:
  "name (test_arc n y m d) = n" "year (timestamp (test_arc n y m d)) = y"
  "month (timestamp (test_arc n y m d)) = m" "day (timestamp (test_arc n y m d)) = d"
  by (simp_all add: test_arc_def test_date_def)

lemma keep_test_day:
  "arc_names_to_keep test_arcs_sorted \<lparr>timepattern = ''%Y-%m-%d'', num = 2\<rparr> = [''1'', ''2'']"
  by (simp add: arc_names_to_keep_def test_arcs_sorted_def strftime_day pad_test_values
      test_arc_sel del: strftime.simps)

lemma keep_test_year:
  "arc_names_to_keep test_arcs_sorted \<lparr>timepattern = ''%Y'', num = 2\<rparr> = [''1'', ''4'']"
  by (simp add: arc_names_to_keep_def test_arcs_sorted_def strftime_year pad_test_values
      test_arc_sel del: strftime.simps)

lemma retained_union_test: "retained_union test_arcs_sorted test_kss = {''1'', ''2'', ''4''}"
  by (auto simp add: retained_union_def test_kss_def keep_test_day keep_test_year)

lemma delete_test: "arc_names_to_delete test_arcs test_kss = [''3'', ''5'', ''6'']"
  by (simp add: arc_names_to_delete_def arc_names_to_delete_st_eq sort_desc_test_arcs
      retained_union_test) (simp add: test_arcs_sorted_def test_arc_sel)

lemma delete_test_sorted: "arc_names_to_delete test_arcs_sorted test_kss = [''3'', ''5'', ''6'']"
  by (simp add: arc_names_to_delete_def arc_names_to_delete_st_eq
      sort_desc_id [OF sorted_desc_test_arcs_sorted] retained_union_test)
    (simp add: test_arcs_sorted_def test_arc_sel)

section \<open>Order of the names to delete\<close>

text \<open>
  C2, as stated, at the archives of the test suite: the names come out newest first
  (\<open>3, 5, 6\<close>), not in the order in which the archives were passed (\<open>5, 6, 3\<close>).
\<close>

theorem names_to_delete_order_counterexample:
  "arc_names_to_delete test_arcs test_kss = [''3'', ''5'', ''6''] \<and>
   names_to_delete_in_input_order test_arcs test_kss = [''5'', ''6'', ''3''] \<and>
   arc_names_to_delete test_arcs test_kss \<noteq> names_to_delete_in_input_order test_arcs test_kss"
proof -
  have b: "names_to_delete_in_input_order test_arcs test_kss = [''5'', ''6'', ''3'']"
    by (simp add: names_to_delete_in_input_order_def sort_desc_test_arcs retained_union_test)
      (simp add: test_arcs_def test_arc_sel)
  show ?thesis by (simp add: delete_test b)
qed

text \<open>
  C2, amended. The names yielded are those of the archives that no rule retains, in the order
  of the list sorted from newest to oldest (which is the order passed when the list was so
  sorted already); with no rule at all they are the names of all archives.
\<close>

theorem names_to_delete_sorted_order:
  "arc_names_to_delete arcs kss =
     map name (filter (\<lambda>a. name a \<notin> retained_union (sort_desc arcs) kss) (sort_desc arcs)) \<and>
   arc_names_to_delete arcs [] = map name (sort_desc arcs) \<and>
   mset (arc_names_to_delete arcs []) = mset (map name arcs) \<and>
   (sorted_desc arcs \<longrightarrow> arc_names_to_delete arcs kss = names_to_delete_in_input_order arcs kss)"
proof -
  have "mset (map name (sort_desc arcs)) = mset (map name arcs)"
    using mset_sort_desc [of arcs] by (metis mset_map)
  then show ?thesis
    by (simp add: arc_names_to_delete_def arc_names_to_delete_st_eq retained_union_def
        names_to_delete_in_input_order_def sort_desc_id)
qed

theorem names_to_delete_sorted_order_witness:
  "sorted_desc test_arcs_sorted \<and>
   arc_names_to_delete test_arcs_sorted test_kss = [''3'', ''5'', ''6''] \<and>
   names_to_delete_in_input_order test_arcs_sorted test_kss = [''3'', ''5'', ''6'']"
proof -
  have s: "sorted_desc test_arcs_sorted"
    by (rule sorted_desc_test_arcs_sorted)
  from names_to_delete_sorted_order [of test_arcs_sorted test_kss] s
  have "arc_names_to_delete test_arcs_sorted test_kss =
        names_to_delete_in_input_order test_arcs_sorted test_kss"
    by blast
  with s delete_test_sorted show ?thesis by simp
qed

section \<open>Order and repetition of the rules\<close>

text \<open>
  C5. Two lists of rules with the same members, in whatever order and however often
  repeated, give the same names to delete (the same list, hence the same set).
\<close>

theorem keep_specs_order_irrelevant:
  assumes "set kss = set kss'"
  shows "arc_names_to_delete arcs kss = arc_names_to_delete arcs kss' \<and>
         set (arc_names_to_delete arcs kss) = set (arc_names_to_delete arcs kss')"
  using assms by (simp add: arc_names_to_delete_def arc_names_to_delete_st_eq retained_union_def)

theorem keep_specs_order_irrelevant_witness:
  "set test_kss = set (rev test_kss @ test_kss) \<and>
   arc_names_to_delete test_arcs (rev test_kss @ test_kss) = [''3'', ''5'', ''6'']"
proof -
  have h: "set test_kss = set (rev test_kss @ test_kss)" by simp
  show ?thesis
    using keep_specs_order_irrelevant [OF h, of test_arcs] h delete_test by simp
qed

section \<open>What a call leaves behind\<close>

text \<open>
  C8, as stated, at the archives of the test suite: after the call the list is not the list
  that was passed.
\<close>

theorem input_list_unchanged_counterexample:
  "fst (arc_names_to_delete_st test_arcs test_kss) \<noteq> test_arcs"
  by (simp add: arc_names_to_delete_st_eq sort_desc_test_arcs)
    (simp add: test_arcs_sorted_def test_arcs_def test_arc_def)

text \<open>
  C8, amended. The call leaves the list sorted from newest to oldest: the same archive
  records, each as it was, in the order of the stable descending sort; a list that was so
  sorted already is left as it was.
\<close>

theorem input_list_sorted_in_place:
  "fst (arc_names_to_delete_st arcs kss) = sort_desc arcs \<and>
   mset (fst (arc_names_to_delete_st arcs kss)) = mset arcs \<and>
   sorted_desc (fst (arc_names_to_delete_st arcs kss)) \<and>
   (sorted_desc arcs \<longrightarrow> fst (arc_names_to_delete_st arcs kss) = arcs)"
  by (simp add: arc_names_to_delete_st_eq mset_sort_desc sorted_desc_sort_desc sort_desc_id)

theorem input_list_sorted_in_place_witness:
  "sorted_desc test_arcs_sorted \<and>
   fst (arc_names_to_delete_st test_arcs_sorted test_kss) = test_arcs_sorted \<and>
   fst (arc_names_to_delete_st test_arcs test_kss) = test_arcs_sorted"
proof -
  have s: "sorted_desc test_arcs_sorted"
    by (rule sorted_desc_test_arcs_sorted)
  from input_list_sorted_in_place [of test_arcs_sorted test_kss] s
  have a: "fst (arc_names_to_delete_st test_arcs_sorted test_kss) = test_arcs_sorted"
    by blast
  from input_list_sorted_in_place [of test_arcs test_kss]
  have b: "fst (arc_names_to_delete_st test_arcs test_kss) = sort_desc test_arcs"
    by blast
  from s a b show ?thesis by (simp add: sort_desc_test_arcs)
qed

section \<open>Running the deletion twice\<close>

text \<open>
  C9. A second run, on the list as the first run left it and with the same rules, yields
  the same names as the first (the same list, hence the same set).
\<close>

theorem names_to_delete_twice:
  "arc_names_to_delete (fst (arc_names_to_delete_st arcs kss)) kss = arc_names_to_delete arcs kss \<and>
   set (arc_names_to_delete (fst (arc_names_to_delete_st arcs kss)) kss) =
     set (arc_names_to_delete arcs kss)"
  by (simp add: arc_names_to_delete_def arc_names_to_delete_st_eq sort_desc_idem)

theorem names_to_delete_twice_witness:
  "arc_names_to_delete (fst (arc_names_to_delete_st test_arcs test_kss)) test_kss =
     [''3'', ''5'', ''6'']"
  using names_to_delete_twice [of test_arcs test_kss] delete_test by simp

section \<open>What the pattern for names matches\<close>

lemma find_append_first:
  "find P (xs @ ys) = (case find P xs of None \<Rightarrow> find P ys | Some x \<Rightarrow> Some x)"
  by (induction xs) auto

lemma find_map_pair:
  "find (\<lambda>st. fst st = []) (map (\<lambda>s'. (s', g)) rs) = (if [] \<in> set rs then Some ([], g) else None)"
  by (induction rs) auto

lemma nil_in_star_greedy: "[] \<in> set (star_greedy a s) \<longleftrightarrow> list_all (amatch a) s"
  by (induction s) auto

lemma find_opt_run:
  "find (\<lambda>st. fst st = [])
     (rmatch (Opt (Seq (Atom (Chr (CHR ''-''))) (Star (Cls run_chars)))) (s, g)) =
   (if is_suffix_run s then Some ([], g) else None)"
proof (cases s)
  case Nil
  then show ?thesis by (simp add: is_suffix_run_def)
next
  case (Cons c t)
  show ?thesis
  proof (cases "c = CHR ''-''")
    case True
    have "find (\<lambda>st. fst st = []) (map (\<lambda>s'. (s', g)) (star_greedy (Cls run_chars) t)) =
          (if list_all (amatch (Cls run_chars)) t then Some ([], g) else None)"
      by (simp only: find_map_pair nil_in_star_greedy)
    with Cons True show ?thesis
      by (simp add: is_suffix_run_def find_append_first cong: list.pred_cong)
  next
    case False
    with Cons show ?thesis by (simp add: is_suffix_run_def)
  qed
qed


lemma star_lazy_length: "s' \<in> set (star_lazy a s) \<Longrightarrow> length s' \<le> length s"
  by (induction s) (auto split: if_splits)

lemma name_search:
  "find (\<lambda>st. fst st = [])
     (concat (map (rmatch (Opt (Seq (Atom (Chr (CHR ''-''))) (Star (Cls run_chars)))))
        (map (\<lambda>s'. (s', (n, pre @ take (length s - length s') s) # g)) (star_lazy Dot s)))) =
   map_option (\<lambda>b. ([], (n, pre @ b) # g)) (strip_run s)"
proof (induction s arbitrary: pre)
  case Nil
  show ?case
    by (simp add: find_opt_run is_suffix_run_def del: rmatch.simps)
next
  case (Cons c cs)
  let ?R = "Opt (Seq (Atom (Chr (CHR ''-''))) (Star (Cls run_chars)))"
  have shift: "map (\<lambda>s'. (s', (n, pre @ take (length (c # cs) - length s') (c # cs)) # g))
                 (star_lazy Dot cs) =
               map (\<lambda>s'. (s', (n, (pre @ [c]) @ take (length cs - length s') cs) # g))
                 (star_lazy Dot cs)"
  proof (rule map_cong [OF refl])
    fix s' assume "s' \<in> set (star_lazy Dot cs)"
    then have "length s' \<le> length cs" by (rule star_lazy_length)
    then have "length (c # cs) - length s' = Suc (length cs - length s')" by simp
    then show "(s', (n, pre @ take (length (c # cs) - length s') (c # cs)) # g) =
               (s', (n, (pre @ [c]) @ take (length cs - length s') cs) # g)"
      by simp
  qed
  have head: "find (\<lambda>st. fst st = []) (rmatch ?R (c # cs, (n, pre) # g)) =
              (if is_suffix_run (c # cs) then Some ([], (n, pre) # g) else None)"
    by (rule find_opt_run)
  show ?case
  proof (cases "c = CHR 0x0A")
    case True
    then show ?thesis
      using head by (simp add: find_append_first del: rmatch.simps)
  next
    case False
    have tail: "find (\<lambda>st. fst st = [])
        (concat (map (rmatch ?R)
           (map (\<lambda>s'. (s', (n, pre @ take (length (c # cs) - length s') (c # cs)) # g))
              (star_lazy Dot cs)))) =
        map_option (\<lambda>b. ([], (n, (pre @ [c]) @ b) # g)) (strip_run cs)"
      unfolding shift by (rule Cons.IH)
    show ?thesis
      using False head tail
      by (simp add: find_append_first option.map_comp comp_def del: rmatch.simps)
  qed
qed

lemma re_fullmatch_NAME_RE:
  "re_fullmatch NAME_RE s = map_option (\<lambda>b. ([], [(1, b)])) (strip_run s)"
proof -
  have "rmatch NAME_RE (s, []) =
        concat (map (rmatch (Opt (Seq (Atom (Chr (CHR ''-''))) (Star (Cls run_chars)))))
          (map (\<lambda>s'. (s', (1, [] @ take (length s - length s') s) # [])) (star_lazy Dot s)))"
    by (simp add: NAME_RE_def comp_def)
  then show ?thesis
    unfolding re_fullmatch_def by (simp only: name_search) simp
qed

lemma base_name_eq: "base_name s = strip_run s"
  by (cases "strip_run s") (simp_all add: base_name_def re_fullmatch_NAME_RE group_def)

lemma strip_run_total: "CHR 0x0A \<notin> set s \<Longrightarrow> strip_run s \<noteq> None"
  by (induction s) auto

lemma strip_run_split:
  "strip_run s = Some b \<Longrightarrow> \<exists>r. s = b @ r \<and> is_suffix_run r \<and> CHR 0x0A \<notin> set b"
proof (induction s arbitrary: b)
  case Nil
  then show ?case by (simp add: is_suffix_run_def)
next
  case (Cons c cs)
  show ?case
  proof (cases "is_suffix_run (c # cs)")
    case True
    with Cons.prems show ?thesis by auto
  next
    case False
    with Cons.prems obtain b' where b': "c \<noteq> CHR 0x0A" "strip_run cs = Some b'" "b = c # b'"
      by (auto split: if_splits)
    from Cons.IH [OF b'(2)] b' show ?thesis by auto
  qed
qed

lemma strip_run_shortest:
  "strip_run s = Some b \<Longrightarrow> s = b' @ r' \<Longrightarrow> is_suffix_run r' \<Longrightarrow> length b \<le> length b'"
proof (induction s arbitrary: b b')
  case Nil
  then show ?case by simp
next
  case (Cons c cs)
  show ?case
  proof (cases "is_suffix_run (c # cs)")
    case True
    with Cons.prems(1) show ?thesis by simp
  next
    case False
    with Cons.prems(1) obtain b0 where b0: "strip_run cs = Some b0" "b = c # b0"
      by (auto split: if_splits)
    from False Cons.prems(2,3) have "b' \<noteq> []"
      by auto
    with Cons.prems(2) obtain b1 where b1: "b' = c # b1" "cs = b1 @ r'"
      by (cases b') auto
    from Cons.IH [OF b0(1) b1(2) Cons.prems(3)] b0 b1 show ?thesis by simp
  qed
qed

lemma name_with_newline: "base_name (''a'' @ [CHR 0x0A] @ ''b'') = None"
  by (simp add: base_name_eq is_suffix_run_def)

section \<open>Groups of a match, and the errors of the timestamp parser\<close>

lemma rmatch_keeps:
  "st' \<in> set (rmatch r st) \<Longrightarrow> map_of (snd st) n \<noteq> None \<Longrightarrow> map_of (snd st') n \<noteq> None"
proof (induction r arbitrary: st st')
  case (Atom a)
  then show ?case by (cases st) (auto split: list.splits if_splits)
next
  case (Str w)
  then show ?case by (cases st) (auto split: if_splits)
next
  case (Seq r1 r2)
  from Seq.prems(1) obtain st1 where "st1 \<in> set (rmatch r1 st)" "st' \<in> set (rmatch r2 st1)"
    by auto
  with Seq.IH Seq.prems(2) show ?case by blast
next
  case (Alt r1 r2)
  from Alt.prems(1) have "st' \<in> set (rmatch r1 st) \<or> st' \<in> set (rmatch r2 st)"
    by simp
  with Alt.IH Alt.prems(2) show ?case by blast
next
  case (Star a)
  then show ?case by (cases st) auto
next
  case (LazyStar a)
  then show ?case by (cases st) auto
next
  case (Plus a)
  then show ?case by (cases st) (auto split: list.splits if_splits)
next
  case (Opt r)
  from Opt.prems(1) have "st' \<in> set (rmatch r st) \<or> st' = st"
    by auto
  with Opt.IH Opt.prems(2) show ?case by blast
next
  case (Grp k r)
  obtain s g where st: "st = (s, g)" by (cases st)
  with Grp.prems(1) obtain s' g' where
    "(s', g') \<in> set (rmatch r (s, g))" "st' = (s', (k, take (length s - length s') s) # g')"
    by auto
  with Grp.IH [of "(s', g')" "(s, g)"] Grp.prems(2) st show ?case by auto
qed

lemma rmatch_binds:
  "st' \<in> set (rmatch r st) \<Longrightarrow> binds r n \<Longrightarrow> map_of (snd st') n \<noteq> None"
proof (induction r arbitrary: st st')
  case (Seq r1 r2)
  from Seq.prems(1) obtain st1 where
    st1: "st1 \<in> set (rmatch r1 st)" "st' \<in> set (rmatch r2 st1)"
    by auto
  show ?case
  proof (cases "binds r2 n")
    case True
    with Seq.IH(2) st1 show ?thesis by blast
  next
    case False
    with Seq.prems(2) have "binds r1 n" by simp
    with Seq.IH(1) st1 have "map_of (snd st1) n \<noteq> None" by blast
    with rmatch_keeps st1 show ?thesis by blast
  qed
next
  case (Alt r1 r2)
  from Alt.prems(1) have "st' \<in> set (rmatch r1 st) \<or> st' \<in> set (rmatch r2 st)"
    by simp
  moreover from Alt.prems(2) have "binds r1 n" "binds r2 n"
    by simp_all
  ultimately show ?case using Alt.IH by blast
next
  case (Grp k r)
  obtain s g where st: "st = (s, g)" by (cases st)
  with Grp.prems(1) obtain s' g' where
    *: "(s', g') \<in> set (rmatch r (s, g))" "st' = (s', (k, take (length s - length s') s) # g')"
    by auto
  show ?case
  proof (cases "k = n")
    case True
    with * show ?thesis by simp
  next
    case False
    with Grp.prems(2) have "binds r n" by simp
    with Grp.IH * have "map_of g' n \<noteq> None" by fastforce
    with * show ?thesis by simp
  qed
qed simp_all

lemma binds_seqs: "r \<in> set rs \<Longrightarrow> binds r n \<Longrightarrow> binds (seqs rs) n"
  by (induction rs rule: seqs.induct) auto

lemma binds_STRPTIME_RE:
  "binds STRPTIME_RE 1" "binds STRPTIME_RE 2" "binds STRPTIME_RE 3"
  "binds STRPTIME_RE 4" "binds STRPTIME_RE 5" "binds STRPTIME_RE 6"
  by (simp_all add: STRPTIME_RE_def)

lemma re_match_in_rmatch: "re_match r s = Some st \<Longrightarrow> st \<in> set (rmatch r (s, []))"
  by (auto simp add: re_match_def split: list.splits)

lemma group_int_bound:
  assumes "re_match STRPTIME_RE s = Some found" and "binds STRPTIME_RE n"
  shows "\<exists>w. group_int found n = py_int w"
proof -
  from assms have "map_of (snd found) n \<noteq> None"
    using rmatch_binds re_match_in_rmatch by blast
  then show ?thesis by (auto simp add: group_int_def group_def)
qed

lemma py_int_cases: "(\<exists>i. py_int w = Inr i) \<or> (\<exists>v. py_int w = Inl (ValueError v))"
  by (simp add: py_int_def)

lemma group_int_cases:
  assumes "re_match STRPTIME_RE s = Some found" and "binds STRPTIME_RE n"
  shows "(\<exists>i. group_int found n = Inr i) \<or> (\<exists>v. group_int found n = Inl (ValueError v))"
  using group_int_bound [OF assms] py_int_cases by metis

lemma datetime_new_cases:
  "(\<exists>t. datetime_new y m d H M S us = Inr t \<and> valid_datetime t) \<or>
   (\<exists>v. datetime_new y m d H M S us = Inl (ValueError v))"
  by (simp add: datetime_new_def)

lemma bnd_cases:
  assumes "(\<exists>i. m = Inr i) \<or> (\<exists>v. m = Inl (ValueError v))"
    and "\<And>i. (\<exists>t. f i = Inr t \<and> P t) \<or> (\<exists>v. f i = Inl (ValueError v))"
  shows "(\<exists>t. bnd m f = Inr t \<and> P t) \<or> (\<exists>v. bnd m f = Inl (ValueError v))"
proof (cases m)
  case (Inl e)
  with assms(1) show ?thesis by (auto simp add: bnd_def)
next
  case (Inr i)
  with assms(2) [of i] show ?thesis by (simp add: bnd_def)
qed

lemma strptime_cases:
  "(\<exists>t. strptime s = Inr t \<and> valid_datetime t) \<or> (\<exists>v. strptime s = Inl (ValueError v))"
proof (cases "re_match STRPTIME_RE s")
  case None
  then show ?thesis by (simp add: strptime_def)
next
  case (Some found)
  note g = group_int_cases [OF Some]
  show ?thesis
  proof (cases "fst found = []")
    case False
    with Some show ?thesis by (simp add: strptime_def)
  next
    case True
    have "strptime s =
          bnd (group_int found 1) (\<lambda>y.
          bnd (group_int found 2) (\<lambda>m.
          bnd (group_int found 3) (\<lambda>d.
          bnd (group_int found 4) (\<lambda>H.
          bnd (group_int found 5) (\<lambda>M.
          bnd (group_int found 6) (\<lambda>S. datetime_new y m d H M S 0))))))"
      using Some True by (simp add: strptime_def)
    then show ?thesis
      by (simp only:) (intro bnd_cases g binds_STRPTIME_RE datetime_new_cases)
  qed
qed

section \<open>One line of a listing\<close>

lemma splitlines_from_no_newline:
  "line \<in> set (splitlines_from skip cur s) \<Longrightarrow> CHR 0x0A \<notin> set cur \<Longrightarrow> CHR 0x0A \<notin> set line"
proof (induction s arbitrary: skip cur)
  case Nil
  then show ?case by (auto split: if_splits)
next
  case (Cons c cs)
  show ?case
  proof (cases "skip \<and> c = CHR 0x0A")
    case True
    with Cons.prems have "line \<in> set (splitlines_from False cur cs)" by simp
    with Cons.IH Cons.prems(2) show ?thesis by blast
  next
    case False
    show ?thesis
    proof (cases "c \<in> set linebreaks")
      case True
      with False Cons.prems have "line = cur \<or> line \<in> set (splitlines_from (c = CHR 0x0D) [] cs)"
        by (cases skip) auto
      with Cons.IH [of "c = CHR 0x0D" "[]"] Cons.prems(2) show ?thesis by auto
    next
      case nb: False
      then have "c \<noteq> CHR 0x0A" by (auto simp add: linebreaks_def)
      with Cons.prems(2) have "CHR 0x0A \<notin> set (cur @ [c])" by simp
      moreover from False nb Cons.prems(1) have "line \<in> set (splitlines_from False (cur @ [c]) cs)"
        by (cases skip) simp_all
      ultimately show ?thesis using Cons.IH by blast
    qed
  qed
qed

lemma splitlines_no_newline: "line \<in> set (splitlines s) \<Longrightarrow> CHR 0x0A \<notin> set line"
  unfolding splitlines_def by (erule splitlines_from_no_newline) simp

lemma rstrip_chr_id: "c \<notin> set s \<Longrightarrow> rstrip_chr c s = s"
proof -
  assume "c \<notin> set s"
  then have "dropWhile (\<lambda>x. x = c) (rev s) = rev s"
    by (induction s rule: rev_induct) auto
  then show ?thesis by (simp add: rstrip_chr_def)
qed

lemma split_on_subset: "f \<in> set (split_on sep s) \<Longrightarrow> set f \<subseteq> set s"
proof (induction s arbitrary: f)
  case Nil
  then show ?case by simp
next
  case (Cons c cs)
  show ?case
  proof (cases "c = sep")
    case True
    with Cons show ?thesis by auto
  next
    case False
    show ?thesis
    proof (cases "split_on sep cs")
      case Nil
      with False Cons.prems show ?thesis by simp
    next
      case (Cons g gs)
      with False Cons.prems have "f = c # g \<or> f \<in> set gs" by simp
      with Cons Cons.IH show ?thesis by fastforce
    qed
  qed
qed

lemma parse_line_two_fields:
  assumes "CHR 0x0A \<notin> set line" and "split_on (CHR 0x09) line = [nm, ts_str]"
  shows "\<exists>b. base_name nm = Some b \<and>
           parse_line line =
             (case strptime ts_str of Inl e \<Rightarrow> Inl e
              | Inr ts \<Rightarrow> Inr (b, \<lparr>name = nm, timestamp = ts\<rparr>))"
proof -
  from assms(2) have "nm \<in> set (split_on (CHR 0x09) line)" by simp
  with assms(1) split_on_subset have "CHR 0x0A \<notin> set nm" by blast
  then obtain b where b: "strip_run nm = Some b"
    using strip_run_total by blast
  then have "re_fullmatch NAME_RE nm = Some ([], [(1, b)])"
    by (simp add: re_fullmatch_NAME_RE)
  with assms b show ?thesis
    by (simp add: parse_line_def rstrip_chr_id base_name_eq bnd_def group_def
        split: sum.splits)
qed

lemma parse_line_other_fields:
  assumes "CHR 0x0A \<notin> set line" and "\<nexists>nm ts_str. split_on (CHR 0x09) line = [nm, ts_str]"
  shows "parse_line line =
           Inl (ValueError (if length (split_on (CHR 0x09) line) < 2
                            then NotEnoughValues (length (split_on (CHR 0x09) line))
                            else TooManyValues))"
  using assms by (simp add: parse_line_def rstrip_chr_id split: list.splits)

lemma parse_line_ok_iff:
  assumes "CHR 0x0A \<notin> set line"
  shows "(\<exists>p. parse_line line = Inr p) \<longleftrightarrow> line_ok line"
proof (cases "\<exists>nm ts_str. split_on (CHR 0x09) line = [nm, ts_str]")
  case True
  then obtain nm ts_str where f: "split_on (CHR 0x09) line = [nm, ts_str]" by blast
  from parse_line_two_fields [OF assms f] f show ?thesis
    by (auto simp add: line_ok_def split: sum.splits)
next
  case False
  with parse_line_other_fields [OF assms] show ?thesis
    by (auto simp add: line_ok_def split: list.splits)
qed

lemma parse_line_error:
  assumes "CHR 0x0A \<notin> set line" and "parse_line line = Inl e"
  shows "\<exists>v. e = ValueError v \<and>
           (case split_on (CHR 0x09) line of
              [nm, ts_str] \<Rightarrow> strptime ts_str = Inl (ValueError v)
            | fs \<Rightarrow> v = (if length fs < 2 then NotEnoughValues (length fs) else TooManyValues))"
proof (cases "\<exists>nm ts_str. split_on (CHR 0x09) line = [nm, ts_str]")
  case True
  then obtain nm ts_str where f: "split_on (CHR 0x09) line = [nm, ts_str]" by blast
  from parse_line_two_fields [OF assms(1) f] assms(2) strptime_cases [of ts_str] f
  show ?thesis by (auto split: sum.splits)
next
  case False
  with parse_line_other_fields [OF assms(1)] assms(2) show ?thesis
    by (auto split: list.splits)
qed

section \<open>The loop over the lines\<close>

lemma line_entries_Cons:
  "line_entries (l # ls) =
     (case parse_line l of Inr p \<Rightarrow> p # line_entries ls | Inl e \<Rightarrow> line_entries ls)"
  by (simp add: line_entries_def List.map_filter_simps split: sum.splits)

lemma line_entries_Nil: "line_entries [] = []"
  by (simp add: line_entries_def List.map_filter_simps)

lemma parse_arcs_loop_eq:
  assumes "\<forall>l\<in>set lines. CHR 0x0A \<notin> set l"
  shows "case find (\<lambda>l. \<not> line_ok l) lines of
           None \<Rightarrow>
             parse_arcs_loop lines result =
               Inr (foldl (\<lambda>r (b, a). dd_append r b a) result (line_entries lines))
         | Some l \<Rightarrow> \<exists>e. parse_line l = Inl e \<and> parse_arcs_loop lines result = Inl e"
  using assms
proof (induction lines arbitrary: result)
  case Nil
  show ?case by (simp add: line_entries_Nil)
next
  case (Cons l ls)
  from Cons.prems have nl: "CHR 0x0A \<notin> set l" and rest: "\<forall>l\<in>set ls. CHR 0x0A \<notin> set l"
    by simp_all
  show ?case
  proof (cases "line_ok l")
    case True
    with parse_line_ok_iff [OF nl] obtain b a where p: "parse_line l = Inr (b, a)"
      by fastforce
    with True Cons.IH [OF rest, of "dd_append result b a"] show ?thesis
      by (simp add: line_entries_Cons split: option.splits)
  next
    case False
    with parse_line_ok_iff [OF nl] obtain e where "parse_line l = Inl e"
      by (cases "parse_line l") auto
    with False show ?thesis by simp
  qed
qed

lemma find_not_ok_None: "find (\<lambda>l. \<not> line_ok l) lines = None \<longleftrightarrow> list_all line_ok lines"
  by (auto simp add: find_None_iff list_all_iff)

lemma dd_fold_lookup:
  "map_of (foldl (\<lambda>r (b, a). dd_append r b a) result es) k =
     (case map_of result k of
        None \<Rightarrow> (if map snd (filter (\<lambda>e. fst e = k) es) = [] then None
                 else Some (map snd (filter (\<lambda>e. fst e = k) es)))
      | Some vs \<Rightarrow> Some (vs @ map snd (filter (\<lambda>e. fst e = k) es)))"
proof (induction es arbitrary: result)
  case Nil
  show ?case by (simp split: option.splits)
next
  case (Cons e es)
  obtain b a where e: "e = (b, a)" by (cases e)
  have step: "map_of (dd_append result b a) =
              (map_of result)(b \<mapsto> (case map_of result b of None \<Rightarrow> [] | Some vs \<Rightarrow> vs) @ [a])"
    by (simp add: dd_append_def update_conv')
  show ?case
    unfolding e using Cons.IH [of "dd_append result b a"]
    by (simp add: step split: option.splits)
qed

lemma dd_fold_distinct:
  "distinct (map fst result) \<Longrightarrow>
   distinct (map fst (foldl (\<lambda>r (b, a). dd_append r b a) result es))"
proof (induction es arbitrary: result)
  case Nil
  then show ?case by simp
next
  case (Cons e es)
  obtain b a where e: "e = (b, a)" by (cases e)
  from Cons.prems have "distinct (map fst (dd_append result b a))"
    by (simp add: dd_append_def distinct_update)
  from Cons.IH [OF this] show ?case by (simp add: e)
qed

lemma line_entries_key:
  assumes "\<forall>l\<in>set lines. CHR 0x0A \<notin> set l" and "e \<in> set (line_entries lines)"
  shows "base_name (name (snd e)) = Some (fst e)"
  using assms
proof (induction lines)
  case Nil
  then show ?case by (simp add: line_entries_Nil)
next
  case (Cons l ls)
  from Cons.prems(1) have nl: "CHR 0x0A \<notin> set l" by simp
  show ?case
  proof (cases "parse_line l")
    case (Inl err)
    with Cons show ?thesis by (simp add: line_entries_Cons)
  next
    case (Inr p)
    show ?thesis
    proof (cases "e = p")
      case False
      with Inr Cons show ?thesis by (simp add: line_entries_Cons)
    next
      case True
      from Inr parse_line_ok_iff [OF nl] have "line_ok l" by blast
      then obtain nm ts_str where f: "split_on (CHR 0x09) l = [nm, ts_str]"
        by (auto simp add: line_ok_def split: list.splits)
      from parse_line_two_fields [OF nl f] Inr True show ?thesis
        by (cases "strptime ts_str") auto
    qed
  qed
qed

lemma families_by_key:
  assumes "\<forall>e\<in>set es. base_name (name (snd e)) = Some (fst e)"
  shows "map snd (filter (\<lambda>e. fst e = k) es) =
         filter (\<lambda>a. base_name (name a) = Some k) (map snd es)"
  using assms by (induction es) auto

section \<open>Families of archives\<close>

lemma parse_arcs_result:
  "case find (\<lambda>l. \<not> line_ok l) (splitlines listing) of
     None \<Rightarrow>
       parse_arcs listing =
         Inr (foldl (\<lambda>r (b, a). dd_append r b a) [] (line_entries (splitlines listing)))
   | Some l \<Rightarrow> \<exists>e. parse_line l = Inl e \<and> parse_arcs listing = Inl e"
  unfolding parse_arcs_def
  by (rule parse_arcs_loop_eq) (simp add: splitlines_no_newline)

lemma parse_arcs_error:
  assumes "find (\<lambda>l. \<not> line_ok l) (splitlines listing) = Some l"
  shows "\<exists>v. parse_arcs listing = Inl (ValueError v) \<and>
           (case split_on (CHR 0x09) l of
              [nm, ts_str] \<Rightarrow> strptime ts_str = Inl (ValueError v)
            | fs \<Rightarrow> v = (if length fs < 2 then NotEnoughValues (length fs) else TooManyValues))"
proof -
  from parse_arcs_result [of listing] assms obtain e where
    e: "parse_line l = Inl e" "parse_arcs listing = Inl e"
    by auto
  from assms have "l \<in> set (splitlines listing)"
    by (auto simp add: find_Some_iff)
  then have "CHR 0x0A \<notin> set l" by (rule splitlines_no_newline)
  from parse_line_error [OF this e(1)] e(2) show ?thesis by auto
qed

lemma parse_arcs_ok_iff:
  "(\<exists>m. parse_arcs listing = Inr m) \<longleftrightarrow> list_all line_ok (splitlines listing)"
proof (cases "find (\<lambda>l. \<not> line_ok l) (splitlines listing)")
  case None
  with parse_arcs_result [of listing] find_not_ok_None show ?thesis by auto
next
  case (Some l)
  with find_not_ok_None [of "splitlines listing"] have "\<not> list_all line_ok (splitlines listing)"
    by simp
  with parse_arcs_result [of listing] Some show ?thesis by auto
qed

lemma parse_arcs_Inr:
  assumes "parse_arcs listing = Inr m"
  shows "m = foldl (\<lambda>r (b, a). dd_append r b a) [] (line_entries (splitlines listing))"
    and "list_all line_ok (splitlines listing)"
proof -
  from assms parse_arcs_ok_iff show ok: "list_all line_ok (splitlines listing)" by blast
  then have "find (\<lambda>l. \<not> line_ok l) (splitlines listing) = None"
    by (simp add: find_not_ok_None)
  with parse_arcs_result [of listing] assms
  show "m = foldl (\<lambda>r (b, a). dd_append r b a) [] (line_entries (splitlines listing))"
    by simp
qed

lemma hd_split_on: "split_on sep s = f # fs \<Longrightarrow> f = takeWhile (\<lambda>c. c \<noteq> sep) s"
proof (induction s arbitrary: f fs)
  case Nil
  then show ?case by simp
next
  case (Cons c cs)
  show ?case
  proof (cases "c = sep")
    case True
    with Cons.prems show ?thesis by simp
  next
    case False
    show ?thesis
    proof (cases "split_on sep cs")
      case Nil
      with False Cons.prems have "f = [c]" by simp
      moreover have "split_on sep cs \<noteq> []" by (cases cs) (auto split: list.splits)
      ultimately show ?thesis using Nil by simp
    next
      case (Cons g gs)
      with False Cons.prems(1) have "f = c # g" by simp
      with Cons.IH [OF Cons] False show ?thesis by simp
    qed
  qed
qed

lemma line_entries_names:
  assumes "\<forall>l\<in>set lines. CHR 0x0A \<notin> set l" and "list_all line_ok lines"
  shows "map (name \<circ> snd) (line_entries lines) = map (takeWhile (\<lambda>c. c \<noteq> CHR 0x09)) lines"
  using assms
proof (induction lines)
  case Nil
  show ?case by (simp add: line_entries_Nil)
next
  case (Cons l ls)
  from Cons.prems have nl: "CHR 0x0A \<notin> set l" and ok: "line_ok l" by simp_all
  from ok obtain nm ts_str where f: "split_on (CHR 0x09) l = [nm, ts_str]"
    by (auto simp add: line_ok_def split: list.splits)
  from ok f obtain t where t: "strptime ts_str = Inr t"
    by (auto simp add: line_ok_def split: sum.splits)
  from parse_line_two_fields [OF nl f] t obtain b where
    "parse_line l = Inr (b, \<lparr>name = nm, timestamp = t\<rparr>)" by auto
  moreover from hd_split_on [OF f] have "nm = takeWhile (\<lambda>c. c \<noteq> CHR 0x09) l" .
  ultimately show ?case using Cons by (simp add: line_entries_Cons)
qed

lemma base_name_char:
  assumes "base_name nm = Some b"
  shows "\<exists>r. nm = b @ r \<and> is_suffix_run r \<and>
           (\<forall>b' r'. nm = b' @ r' \<and> is_suffix_run r' \<longrightarrow> length b \<le> length b') \<and>
           ((\<forall>b' r'. nm = b' @ r' \<and> is_suffix_run r' \<longrightarrow> r' = []) \<longrightarrow> b = nm)"
proof -
  from assms have s: "strip_run nm = Some b" by (simp add: base_name_eq)
  from strip_run_split [OF s] obtain r where r: "nm = b @ r" "is_suffix_run r" by blast
  have "\<forall>b' r'. nm = b' @ r' \<and> is_suffix_run r' \<longrightarrow> length b \<le> length b'"
    using strip_run_shortest [OF s] by blast
  moreover have "(\<forall>b' r'. nm = b' @ r' \<and> is_suffix_run r' \<longrightarrow> r' = []) \<longrightarrow> b = nm"
    using r by auto
  ultimately show ?thesis using r by blast
qed

lemma listed_names:
  assumes "parse_arcs listing = Inr m"
  shows "map name (listed_archives listing) =
           map (takeWhile (\<lambda>c. c \<noteq> CHR 0x09)) (splitlines listing)"
proof -
  have nl: "\<forall>l\<in>set (splitlines listing). CHR 0x0A \<notin> set l"
    by (simp add: splitlines_no_newline)
  from line_entries_names [OF nl parse_arcs_Inr(2) [OF assms]] show ?thesis
    by (simp add: listed_archives_def)
qed

lemma listed_keys:
  "\<forall>e\<in>set (line_entries (splitlines listing)). base_name (name (snd e)) = Some (fst e)"
proof -
  have nl: "\<forall>l\<in>set (splitlines listing). CHR 0x0A \<notin> set l"
    by (simp add: splitlines_no_newline)
  from line_entries_key [OF nl] show ?thesis by blast
qed

lemma newline_not_run_char: "CHR 0x0A \<notin> set run_chars"
  by (simp add: run_chars_def)

lemma suffix_run_no_newline: "is_suffix_run r \<Longrightarrow> CHR 0x0A \<notin> set r"
proof (cases r)
  case Nil
  then show ?thesis by simp
next
  case (Cons c t)
  assume "is_suffix_run r"
  with Cons have c: "c = CHR ''-''" and t: "\<forall>x\<in>set t. x \<in> set run_chars"
    by (simp_all add: is_suffix_run_def list_all_iff)
  from t newline_not_run_char have "CHR 0x0A \<notin> set t" by blast
  with c Cons show ?thesis by simp
qed

lemma listed_no_newline:
  assumes "a \<in> set (listed_archives listing)"
  shows "CHR 0x0A \<notin> set (name a)"
proof -
  from assms obtain e where "e \<in> set (line_entries (splitlines listing))" "a = snd e"
    by (auto simp add: listed_archives_def)
  with listed_keys have "strip_run (name a) = Some (fst e)"
    by (simp add: base_name_eq)
  from strip_run_split [OF this] obtain r where
    r: "name a = fst e @ r" "is_suffix_run r" "CHR 0x0A \<notin> set (fst e)" by blast
  from r(2) have "CHR 0x0A \<notin> set r"
    by (rule suffix_run_no_newline)
  with r show ?thesis by simp
qed

lemma families_distinct:
  assumes "parse_arcs listing = Inr m"
  shows "distinct (map fst m)"
  unfolding parse_arcs_Inr(1) [OF assms] by (rule dd_fold_distinct) simp

lemma families_lookup:
  assumes "parse_arcs listing = Inr m"
  shows "map_of m k =
           (if filter (\<lambda>a. base_name (name a) = Some k) (listed_archives listing) = [] then None
            else Some (filter (\<lambda>a. base_name (name a) = Some k) (listed_archives listing)))"
proof -
  have "map_of m k =
          (if map snd (filter (\<lambda>e. fst e = k) (line_entries (splitlines listing))) = [] then None
           else Some (map snd (filter (\<lambda>e. fst e = k) (line_entries (splitlines listing)))))"
    unfolding parse_arcs_Inr(1) [OF assms] by (simp only: dd_fold_lookup) simp
  then show ?thesis
    by (simp only: families_by_key [OF listed_keys] listed_archives_def)
qed

text \<open>
  C6. For a name without a line feed (every name that a listing can give has none), the
  base name is the name with its longest trailing run of the form dash, then digits and
  dashes, removed, and the name itself when it has no such run. When a listing parses, its
  archives (their names the first fields of the lines, in the order of the lines) are grouped
  under distinct keys: the family of a key holds exactly the archives with that base name,
  in the order of the listing.
\<close>

theorem base_name_families:
  assumes "parse_arcs listing = Inr m" and "CHR 0x0A \<notin> set nm"
  shows "(\<exists>b r. base_name nm = Some b \<and> nm = b @ r \<and> is_suffix_run r \<and>
            (\<forall>b' r'. nm = b' @ r' \<and> is_suffix_run r' \<longrightarrow> length b \<le> length b') \<and>
            ((\<forall>b' r'. nm = b' @ r' \<and> is_suffix_run r' \<longrightarrow> r' = []) \<longrightarrow> b = nm)) \<and>
         map name (listed_archives listing) =
           map (takeWhile (\<lambda>c. c \<noteq> CHR 0x09)) (splitlines listing) \<and>
         (\<forall>a\<in>set (listed_archives listing). CHR 0x0A \<notin> set (name a)) \<and>
         distinct (map fst m) \<and>
         (\<forall>k. map_of m k =
            (if filter (\<lambda>a. base_name (name a) = Some k) (listed_archives listing) = [] then None
             else Some (filter (\<lambda>a. base_name (name a) = Some k) (listed_archives listing))))"
proof -
  from assms(2) obtain b where b: "base_name nm = Some b"
    using strip_run_total [of nm] by (auto simp add: base_name_eq)
  from base_name_char [OF b] obtain r where
    r: "nm = b @ r \<and> is_suffix_run r \<and>
       (\<forall>b' r'. nm = b' @ r' \<and> is_suffix_run r' \<longrightarrow> length b \<le> length b') \<and>
       ((\<forall>b' r'. nm = b' @ r' \<and> is_suffix_run r' \<longrightarrow> r' = []) \<longrightarrow> b = nm)" ..
  have "base_name nm = Some b \<and> nm = b @ r \<and> is_suffix_run r \<and>
       (\<forall>b' r'. nm = b' @ r' \<and> is_suffix_run r' \<longrightarrow> length b \<le> length b') \<and>
       ((\<forall>b' r'. nm = b' @ r' \<and> is_suffix_run r' \<longrightarrow> r' = []) \<longrightarrow> b = nm)"
    using b r by (rule conjI)
  then have "\<exists>r. base_name nm = Some b \<and> nm = b @ r \<and> is_suffix_run r \<and>
       (\<forall>b' r'. nm = b' @ r' \<and> is_suffix_run r' \<longrightarrow> length b \<le> length b') \<and>
       ((\<forall>b' r'. nm = b' @ r' \<and> is_suffix_run r' \<longrightarrow> r' = []) \<longrightarrow> b = nm)"
    by (rule exI)
  then have p1: "\<exists>b r. base_name nm = Some b \<and> nm = b @ r \<and> is_suffix_run r \<and>
            (\<forall>b' r'. nm = b' @ r' \<and> is_suffix_run r' \<longrightarrow> length b \<le> length b') \<and>
            ((\<forall>b' r'. nm = b' @ r' \<and> is_suffix_run r' \<longrightarrow> r' = []) \<longrightarrow> b = nm)"
    by (rule exI)
  note p2 = listed_names [OF assms(1)]
  have p3: "\<forall>a\<in>set (listed_archives listing). CHR 0x0A \<notin> set (name a)"
    using listed_no_newline by blast
  note p4 = families_distinct [OF assms(1)]
  have p5: "\<forall>k. map_of m k =
            (if filter (\<lambda>a. base_name (name a) = Some k) (listed_archives listing) = [] then None
             else Some (filter (\<lambda>a. base_name (name a) = Some k) (listed_archives listing)))"
    using families_lookup [OF assms(1)] by (rule allI)
  show ?thesis
    by (rule conjI [OF p1 conjI [OF p2 conjI [OF p3 conjI [OF p4 p5]]]])
qed

lemma parse_test_listing: "parse_arcs test_listing = Inr test_families"
  by code_simp

lemma listed_test_listing:
  "listed_archives test_listing =
     [\<lparr>name = ''foo'', timestamp = test_time 2000 1 1 0\<rparr>,
      \<lparr>name = ''foo-123'', timestamp = test_time 1999 2 2 3\<rparr>,
      \<lparr>name = ''bar-123'', timestamp = test_time 1999 2 2 3\<rparr>]"
  by code_simp

lemma base_name_foo_123: "base_name ''foo-123'' = Some ''foo''"
  by code_simp

theorem base_name_families_witness:
  "parse_arcs test_listing = Inr test_families \<and> CHR 0x0A \<notin> set ''foo-123'' \<and>
   base_name ''foo-123'' = Some ''foo'' \<and>
   map_of test_families ''foo'' =
     Some [\<lparr>name = ''foo'', timestamp = test_time 2000 1 1 0\<rparr>,
           \<lparr>name = ''foo-123'', timestamp = test_time 1999 2 2 3\<rparr>] \<and>
   map name (listed_archives test_listing) = [''foo'', ''foo-123'', ''bar-123'']"
proof -
  have nl: "CHR 0x0A \<notin> set ''foo-123''" by simp
  note t = base_name_families [OF parse_test_listing nl]
  from t have "map name (listed_archives test_listing) =
      map (takeWhile (\<lambda>c. c \<noteq> CHR 0x09)) (splitlines test_listing)" by blast
  then show ?thesis
    using parse_test_listing nl base_name_foo_123
    by (simp add: listed_test_listing test_families_def)
qed

section \<open>The pattern for names always matches within a listing\<close>

text \<open>
  C10, as stated: a name with a line feed in it is not matched, since the dot of the
  pattern does not match a line feed.
\<close>

theorem name_pattern_counterexample:
  "re_fullmatch NAME_RE (''a'' @ [CHR 0x0A] @ ''b'') = None"
  by (simp add: re_fullmatch_NAME_RE is_suffix_run_def)

text \<open>
  C10, amended. The pattern matches every string that has no line feed in it, and group 1
  takes part in the match. The lines that \<^verbatim>\<open>splitlines\<close> returns have no line feed, so
  \<^verbatim>\<open>parse_arcs\<close> never raises its own error: any error it raises is a \<open>ValueError\<close>.
\<close>

theorem name_pattern_matches:
  "(CHR 0x0A \<notin> set nm \<longrightarrow> (\<exists>b. re_fullmatch NAME_RE nm = Some ([], [(1, b)]))) \<and>
   (\<forall>line\<in>set (splitlines listing). CHR 0x0A \<notin> set line) \<and>
   parse_arcs listing \<noteq> Inl (failed_to_parse_line line) \<and>
   parse_arcs listing \<noteq> Inl (RuntimeError msg)"
proof -
  have a: "CHR 0x0A \<notin> set nm \<longrightarrow> (\<exists>b. re_fullmatch NAME_RE nm = Some ([], [(1, b)]))"
  proof
    assume "CHR 0x0A \<notin> set nm"
    then obtain b where "strip_run nm = Some b"
      using strip_run_total by blast
    then show "\<exists>b. re_fullmatch NAME_RE nm = Some ([], [(1, b)])"
      by (simp add: re_fullmatch_NAME_RE)
  qed
  have b: "\<forall>line\<in>set (splitlines listing). CHR 0x0A \<notin> set line"
    by (simp add: splitlines_no_newline)
  have c: "parse_arcs listing \<noteq> Inl (RuntimeError x)" for x
  proof (cases "find (\<lambda>l. \<not> line_ok l) (splitlines listing)")
    case None
    with parse_arcs_result [of listing] show ?thesis by simp
  next
    case (Some l)
    from parse_arcs_error [OF Some] show ?thesis by auto
  qed
  from a b c show ?thesis by (simp add: failed_to_parse_line_def)
qed

lemma parse_arcs_bad_listing: "parse_arcs bad_listing = Inl (ValueError (TimeDataMismatch ''bar''))"
  by code_simp

lemma splitlines_bad_listing: "splitlines bad_listing = [bad_listing]"
  by code_simp

lemma line_ok_bad_listing: "\<not> line_ok bad_listing"
  by code_simp

theorem name_pattern_matches_witness:
  "CHR 0x0A \<notin> set ''foo-123'' \<and>
   (\<exists>b. re_fullmatch NAME_RE ''foo-123'' = Some ([], [(1, b)])) \<and>
   parse_arcs bad_listing \<noteq> Inl (failed_to_parse_line bad_listing)"
  using name_pattern_matches [of "''foo-123''" bad_listing bad_listing] by simp

section \<open>Malformed lines\<close>

text \<open>
  C4, as stated, at the listing \<open>foo<TAB>bar\<close> of the test suite: the parse fails, but the
  error is the one \<^verbatim>\<open>strptime\<close> raises for the field \<open>bar\<close>; it does not carry the line.
\<close>

theorem parse_arcs_error_counterexample:
  "splitlines bad_listing = [bad_listing] \<and> \<not> line_ok bad_listing \<and>
   parse_arcs bad_listing = Inl (ValueError (TimeDataMismatch ''bar'')) \<and>
   parse_arcs bad_listing \<noteq> Inl (failed_to_parse_line bad_listing)"
  by (simp add: splitlines_bad_listing line_ok_bad_listing parse_arcs_bad_listing
      failed_to_parse_line_def)

text \<open>
  C4, amended. \<^verbatim>\<open>parse_arcs\<close> returns a dictionary exactly when every line is well
  formed. Otherwise it returns no dictionary but the \<open>ValueError\<close> of the first line that is
  not: the one \<^verbatim>\<open>strptime\<close> raises for the second field when there are two fields, the
  one of the unpacking with the number of fields otherwise. The empty listing gives the empty
  dictionary.
\<close>

theorem parse_arcs_all_or_nothing:
  "((\<exists>m. parse_arcs listing = Inr m) \<longleftrightarrow> list_all line_ok (splitlines listing)) \<and>
   (\<forall>l. find (\<lambda>l. \<not> line_ok l) (splitlines listing) = Some l \<longrightarrow>
      (\<exists>v. parse_arcs listing = Inl (ValueError v) \<and>
           (case split_on (CHR 0x09) l of
              [nm, ts_str] \<Rightarrow> strptime ts_str = Inl (ValueError v)
            | fs \<Rightarrow> v = (if length fs < 2 then NotEnoughValues (length fs) else TooManyValues)))) \<and>
   parse_arcs [] = Inr []"
proof -
  have "parse_arcs [] = Inr []"
    by (simp add: parse_arcs_def splitlines_def)
  with parse_arcs_ok_iff [of listing] parse_arcs_error [of listing] show ?thesis
    by blast
qed

lemma newline_listing: "parse_arcs [CHR 0x0A] = Inl (ValueError (NotEnoughValues 1))"
  by code_simp

lemma find_bad_listing: "find (\<lambda>l. \<not> line_ok l) (splitlines bad_listing) = Some bad_listing"
  by (simp add: splitlines_bad_listing line_ok_bad_listing)

lemma line_ok_test_listing: "list_all line_ok (splitlines test_listing)"
  by code_simp

theorem parse_arcs_all_or_nothing_witness:
  "find (\<lambda>l. \<not> line_ok l) (splitlines bad_listing) = Some bad_listing \<and>
   (\<exists>v. parse_arcs bad_listing = Inl (ValueError v)) \<and>
   list_all line_ok (splitlines test_listing) \<and> (\<exists>m. parse_arcs test_listing = Inr m)"
proof -
  from parse_arcs_all_or_nothing [of bad_listing] find_bad_listing
  have "\<exists>v. parse_arcs bad_listing = Inl (ValueError v)" by blast
  moreover from parse_arcs_all_or_nothing [of test_listing] line_ok_test_listing
  have "\<exists>m. parse_arcs test_listing = Inr m" by blast
  ultimately show ?thesis
    using find_bad_listing line_ok_test_listing by blast
qed

section \<open>What the pattern for keep rules matches\<close>










lemma star_greedy_length: "s' \<in> set (star_greedy a s) \<Longrightarrow> length s' \<le> length s"
  by (induction s) (auto split: if_splits)



section \<open>Parsing a policy\<close>













lemma parse_test_policy:
  "parse_keep_specs ''2d,5w,4mon'' =
     Inr [\<lparr>timepattern = ''%Y-%m-%d'', num = 2\<rparr>, \<lparr>timepattern = ''%G-%V'', num = 5\<rparr>,
          \<lparr>timepattern = ''%Y-%m'', num = 4\<rparr>]"
  by code_simp





section \<open>Days before a date\<close>

lemma div_pred:
  fixes y k :: int
  assumes "0 < k"
  shows "(y - 1) div k = (if y mod k = 0 then y div k - 1 else y div k)"
proof (cases "y mod k = 0")
  case True
  then have "y = k * (y div k)" by auto
  then have "y - 1 = k * (y div k - 1) + (k - 1)" by (simp add: algebra_simps)
  with assms have "(y - 1) div k = y div k - 1"
    by (intro int_div_pos_eq [of "y - 1" k "y div k - 1" "k - 1"]) simp_all
  with True show ?thesis by simp
next
  case False
  from assms have "0 \<le> y mod k" "y mod k < k" by simp_all
  with False have r: "0 \<le> y mod k - 1" "y mod k - 1 < k" by simp_all
  have "y - 1 = k * (y div k) + (y mod k - 1)" by simp
  from int_div_pos_eq [OF this r] False show ?thesis by simp
qed

lemma days_before_year_step:
  "days_before_year (y + 1) - days_before_year y = (if is_leap y then 366 else 365)"
proof -
  have m: "y mod 4 \<noteq> 0 \<Longrightarrow> y mod 100 \<noteq> 0" "y mod 100 \<noteq> 0 \<Longrightarrow> y mod 400 \<noteq> 0"
    by presburger+
  show ?thesis
    using m by (simp add: days_before_year_def is_leap_def div_pred [of 4 y] div_pred [of 100 y]
        div_pred [of 400 y])
qed

lemma days_before_month_first: "days_before_month y 1 = 0"
  by (simp add: days_before_month_def DAYS_BEFORE_MONTH_eq)

lemma ymd2ord_first: "ymd2ord y 1 1 = days_before_year y + 1"
  by (simp add: ymd2ord_def days_before_month_first)

lemma month_cases:
  assumes "1 \<le> m" and "m \<le> 12"
  shows "m = 1 \<or> m = 2 \<or> m = 3 \<or> m = 4 \<or> m = 5 \<or> m = 6 \<or> m = 7 \<or> m = 8 \<or> m = 9 \<or> m = 10 \<or>
         m = 11 \<or> m = (12::int)"
  using assms by arith

lemma days_before_month_next:
  assumes "1 \<le> m" and "m \<le> 11"
  shows "days_before_month y (m + 1) = days_before_month y m + days_in_month y m"
proof -
  from assms have "m = 1 \<or> m = 2 \<or> m = 3 \<or> m = 4 \<or> m = 5 \<or> m = 6 \<or> m = 7 \<or> m = 8 \<or> m = 9 \<or>
      m = 10 \<or> m = (11::int)" by arith
  then show ?thesis
    by (elim disjE)
      (simp_all add: days_before_month_def days_in_month_def DAYS_BEFORE_MONTH_eq DAYS_IN_MONTH_def)
qed

lemma days_in_month_pos:
  assumes "1 \<le> m" and "m \<le> 12"
  shows "28 \<le> days_in_month y m"
  using month_cases [OF assms]
  by (elim disjE) (simp_all add: days_in_month_def DAYS_IN_MONTH_def)

lemma days_before_month_last:
  "days_before_month y 12 + days_in_month y 12 = (if is_leap y then 366 else 365)"
  by (simp add: days_before_month_def days_in_month_def DAYS_BEFORE_MONTH_eq DAYS_IN_MONTH_def)


lemma days_before_year_mono: "y \<le> y' \<Longrightarrow> days_before_year y \<le> days_before_year y'"
proof (induction y' rule: int_ge_induct)
  case base
  show ?case by simp
next
  case (step i)
  from days_before_year_step [of i] have "days_before_year i \<le> days_before_year (i + 1)"
    by (simp split: if_splits)
  with step show ?case by simp
qed

lemma days_before_month_mono:
  assumes "1 \<le> m" and "m \<le> m'" and "m' \<le> 12"
  shows "days_before_month y m \<le> days_before_month y m'"
  using assms(2,3)
proof (induction m' rule: int_ge_induct)
  case base
  show ?case by simp
next
  case (step i)
  from step assms(1) have i: "1 \<le> i" "i \<le> 11" by simp_all
  from days_before_month_next [OF i] days_in_month_pos [of i y] i
  have "days_before_month y i \<le> days_before_month y (i + 1)" by simp
  with step show ?case by simp
qed

lemma day_of_year_bounds:
  assumes "1 \<le> m" and "m \<le> 12" and "1 \<le> d" and "d \<le> days_in_month y m"
  shows "1 \<le> days_before_month y m + d"
    and "days_before_month y m + d \<le> (if is_leap y then 366 else 365)"
proof -
  from days_before_month_mono [of 1 m y] assms have "0 \<le> days_before_month y m"
    by (simp add: days_before_month_first)
  with assms(3) show "1 \<le> days_before_month y m + d" by simp
  have "days_before_month y m + days_in_month y m \<le> days_before_month y 12 + days_in_month y 12"
  proof (cases "m = 12")
    case True
    then show ?thesis by simp
  next
    case False
    with assms have m: "1 \<le> m" "m \<le> 11" by simp_all
    from days_before_month_next [OF m] days_before_month_mono [of "m + 1" 12 y] m
      days_in_month_pos [of 12 y]
    show ?thesis by simp
  qed
  with assms(4) days_before_month_last [of y]
  show "days_before_month y m + d \<le> (if is_leap y then 366 else 365)" by simp
qed

lemma day_of_year_mono:
  assumes "1 \<le> m" and "m \<le> 12" and "1 \<le> d" and "d \<le> days_in_month y m"
    and "1 \<le> m'" and "m' \<le> 12" and "1 \<le> d'" and "d' \<le> days_in_month y m'"
    and "m < m' \<or> (m = m' \<and> d \<le> d')"
  shows "days_before_month y m + d \<le> days_before_month y m' + d'"
proof (cases "m < m'")
  case False
  with assms(9) show ?thesis by simp
next
  case True
  with assms have m: "1 \<le> m" "m \<le> 11" by simp_all
  from days_before_month_next [OF m] assms(4)
  have "days_before_month y m + d \<le> days_before_month y (m + 1)" by simp
  also from days_before_month_mono [of "m + 1" m' y] True m assms(6)
  have "\<dots> \<le> days_before_month y m'" by simp
  finally show ?thesis using assms(7) by simp
qed

lemma ymd2ord_in_year:
  assumes "valid_datetime t"
  shows "ymd2ord (year t) 1 1 \<le> ymd2ord (year t) (month t) (day t)"
    and "ymd2ord (year t) (month t) (day t) < ymd2ord (year t + 1) 1 1"
proof -
  from assms have v: "1 \<le> month t" "month t \<le> 12" "1 \<le> day t"
      "day t \<le> days_in_month (year t) (month t)"
    by (simp_all add: valid_datetime_def)
  note b = day_of_year_bounds [OF v]
  from b(1) show "ymd2ord (year t) 1 1 \<le> ymd2ord (year t) (month t) (day t)"
    by (simp add: ymd2ord_first) (simp add: ymd2ord_def)
  from b(2) days_before_year_step [of "year t"]
  show "ymd2ord (year t) (month t) (day t) < ymd2ord (year t + 1) 1 1"
    by (simp add: ymd2ord_first split: if_splits) (simp_all add: ymd2ord_def)
qed

lemma ymd2ord_mono:
  assumes "valid_datetime t" and "valid_datetime t'"
    and "(year t, month t, day t) \<le> (year t', month t', day t')"
  shows "ymd2ord (year t) (month t) (day t) \<le> ymd2ord (year t') (month t') (day t')"
proof (cases "year t < year t'")
  case True
  then have "year t + 1 \<le> year t'" by simp
  from days_before_year_mono [OF this]
  have "ymd2ord (year t + 1) 1 1 \<le> ymd2ord (year t') 1 1" by (simp add: ymd2ord_first)
  with ymd2ord_in_year(2) [OF assms(1)] ymd2ord_in_year(1) [OF assms(2)] show ?thesis by simp
next
  case False
  with assms(3) have y: "year t = year t'"
    and md: "month t < month t' \<or> (month t = month t' \<and> day t \<le> day t')"
    by auto
  from assms(1) have v: "1 \<le> month t" "month t \<le> 12" "1 \<le> day t"
      "day t \<le> days_in_month (year t') (month t)"
    by (simp_all add: valid_datetime_def y)
  from assms(2) have v': "1 \<le> month t'" "month t' \<le> 12" "1 \<le> day t'"
      "day t' \<le> days_in_month (year t') (month t')"
    by (simp_all add: valid_datetime_def)
  from day_of_year_mono [OF v v' md] y show ?thesis by (simp add: ymd2ord_def)
qed

section \<open>The Monday of week 1\<close>

lemma isoweek1monday_monday: "(isoweek1monday y + 6) mod 7 = 0"
  unfolding isoweek1monday_def Let_def by presburger

lemma isoweek1monday_near:
  "ymd2ord y 1 1 - 3 \<le> isoweek1monday y" "isoweek1monday y \<le> ymd2ord y 1 1 + 3"
  unfolding isoweek1monday_def Let_def by presburger+

lemma mondays_apart:
  fixes A B :: int
  assumes "(A + 6) mod 7 = 0" and "(B + 6) mod 7 = 0" and "359 \<le> B - A" and "B - A \<le> 372"
  shows "B - A = 364 \<or> B - A = 371"
  using assms by presburger

lemma isoweek1monday_step:
  "isoweek1monday (y + 1) - isoweek1monday y = 364 \<or>
   isoweek1monday (y + 1) - isoweek1monday y = 371"
proof (rule mondays_apart [OF isoweek1monday_monday isoweek1monday_monday])
  from days_before_year_step [of y]
  have "ymd2ord (y + 1) 1 1 - ymd2ord y 1 1 = 365 \<or> ymd2ord (y + 1) 1 1 - ymd2ord y 1 1 = 366"
    by (simp add: ymd2ord_first split: if_splits)
  with isoweek1monday_near [of y] isoweek1monday_near [of "y + 1"]
  show "359 \<le> isoweek1monday (y + 1) - isoweek1monday y"
    and "isoweek1monday (y + 1) - isoweek1monday y \<le> 372"
    by arith+
qed

lemma isoweek1monday_strict: "y < y' \<Longrightarrow> isoweek1monday y < isoweek1monday y'"
proof -
  have "y + 1 \<le> y' \<Longrightarrow> isoweek1monday y < isoweek1monday y'"
  proof (induction y' rule: int_ge_induct)
    case base
    from isoweek1monday_step [of y] show ?case by arith
  next
    case (step i)
    from isoweek1monday_step [of i] step show ?case by arith
  qed
  then show "y < y' \<Longrightarrow> isoweek1monday y < isoweek1monday y'" by simp
qed

lemma monday_of:
  fixes n X :: int
  assumes "(X + 6) mod 7 = 0"
  shows "X + 7 * ((n - X) div 7) = n - (n + 6) mod 7"
  using assms by presburger

lemma monday_mono:
  fixes n m :: int
  shows "n \<le> m \<Longrightarrow> n - (n + 6) mod 7 \<le> m - (m + 6) mod 7"
  by presburger

section \<open>The ISO week of a date\<close>

lemma isocalendar_spec:
  assumes "valid_datetime t"
  shows "isoweek1monday (fst (isocalendar t)) + 7 * (fst (snd (isocalendar t)) - 1) =
           ymd2ord (year t) (month t) (day t) - (ymd2ord (year t) (month t) (day t) + 6) mod 7"
    and "1 \<le> fst (snd (isocalendar t))"
    and "ymd2ord (year t) (month t) (day t) < isoweek1monday (fst (isocalendar t) + 1)"
    and "year t - 1 \<le> fst (isocalendar t)"
proof -
  let ?y = "year t"
  let ?n = "ymd2ord (year t) (month t) (day t)"
  let ?A = "isoweek1monday (?y - 1)"
  let ?B = "isoweek1monday ?y"
  let ?C = "isoweek1monday (?y + 1)"
  let ?D = "isoweek1monday (?y + 2)"
  note n = ymd2ord_in_year [OF assms]
  note nB = isoweek1monday_near [of ?y]
  note nC = isoweek1monday_near [of "?y + 1"]
  have AB: "?B - ?A = 364 \<or> ?B - ?A = 371"
    using isoweek1monday_step [of "?y - 1"] by simp
  have BC: "?C - ?B = 364 \<or> ?C - ?B = 371"
    by (rule isoweek1monday_step)
  have CD: "?D - ?C = 364 \<or> ?D - ?C = 371"
    using isoweek1monday_step [of "?y + 1"] by (simp add: add.assoc)
  consider (prev) "(?n - ?B) div 7 < 0"
    | (succ) "\<not> (?n - ?B) div 7 < 0" "(?n - ?B) div 7 \<ge> 52 \<and> ?n \<ge> ?C"
    | (same) "\<not> (?n - ?B) div 7 < 0" "\<not> ((?n - ?B) div 7 \<ge> 52 \<and> ?n \<ge> ?C)"
    by blast
  then have "isoweek1monday (fst (isocalendar t)) + 7 * (fst (snd (isocalendar t)) - 1) =
           ?n - (?n + 6) mod 7 \<and> 1 \<le> fst (snd (isocalendar t)) \<and>
           ?n < isoweek1monday (fst (isocalendar t) + 1) \<and> ?y - 1 \<le> fst (isocalendar t)"
  proof cases
    case prev
    then have iso: "isocalendar t = (?y - 1, (?n - ?A) div 7 + 1, (?n - ?A) mod 7 + 1)"
      by (simp add: isocalendar_def Let_def)
    from prev have lt: "?n < ?B" by arith
    from n(1) nB(2) AB have "?A \<le> ?n" by arith
    then have "0 \<le> (?n - ?A) div 7" by simp
    with monday_of [OF isoweek1monday_monday, of "?y - 1" ?n] lt show ?thesis
      by (simp add: iso)
  next
    case succ
    then have iso: "isocalendar t = (?y + 1, 1, (?n - ?B) mod 7 + 1)"
      by (simp add: isocalendar_def Let_def)
    from succ(2) n(2) nC(1) have "0 \<le> ?n - ?C" "?n - ?C < 7" by arith+
    then have "(?n - ?C) div 7 = 0" by simp
    with monday_of [OF isoweek1monday_monday, of "?y + 1" ?n]
    have "?C = ?n - (?n + 6) mod 7" by simp
    moreover from n(2) nC(1) CD have "?n < ?D" by arith
    ultimately show ?thesis by (simp add: iso add.assoc)
  next
    case same
    then have iso: "isocalendar t = (?y, (?n - ?B) div 7 + 1, (?n - ?B) mod 7 + 1)"
      by (simp add: isocalendar_def Let_def)
    from same(1) have ge: "0 \<le> (?n - ?B) div 7" by simp
    have "?n < ?C"
    proof (cases "?n \<ge> ?C")
      case False
      then show ?thesis by simp
    next
      case True
      with same(2) have "(?n - ?B) div 7 < 52" by simp
      then have "?n - ?B < 364" by arith
      with BC show ?thesis by arith
    qed
    with monday_of [OF isoweek1monday_monday, of ?y ?n] ge show ?thesis
      by (simp add: iso)
  qed
  then show "isoweek1monday (fst (isocalendar t)) + 7 * (fst (snd (isocalendar t)) - 1) =
           ?n - (?n + 6) mod 7"
    and "1 \<le> fst (snd (isocalendar t))"
    and "?n < isoweek1monday (fst (isocalendar t) + 1)"
    and "?y - 1 \<le> fst (isocalendar t)"
    by blast+
qed

lemma iso_week_same_monday:
  assumes "valid_datetime t" and "valid_datetime t'"
  shows "(fst (isocalendar t) = fst (isocalendar t') \<and>
          fst (snd (isocalendar t)) = fst (snd (isocalendar t'))) \<longleftrightarrow>
         ymd2ord (year t) (month t) (day t) - (ymd2ord (year t) (month t) (day t) + 6) mod 7 =
         ymd2ord (year t') (month t') (day t') - (ymd2ord (year t') (month t') (day t') + 6) mod 7"
    (is "?L \<longleftrightarrow> ?M = ?M'")
proof
  assume ?L
  with isocalendar_spec(1) [OF assms(1)] isocalendar_spec(1) [OF assms(2)] show "?M = ?M'"
    by simp
next
  assume eq: "?M = ?M'"
  let ?Y = "fst (isocalendar t)" and ?Y' = "fst (isocalendar t')"
  let ?W = "fst (snd (isocalendar t))" and ?W' = "fst (snd (isocalendar t'))"
  note s = isocalendar_spec [OF assms(1)]
  note s' = isocalendar_spec [OF assms(2)]
  have lo: "isoweek1monday ?Y \<le> ?M" using s(1,2) by arith
  have lo': "isoweek1monday ?Y' \<le> ?M'" using s'(1,2) by arith
  have hi: "?M < isoweek1monday (?Y + 1)" using s(3) by arith
  have hi': "?M' < isoweek1monday (?Y' + 1)" using s'(3) by arith
  have "?Y = ?Y'"
  proof (rule ccontr)
    assume "?Y \<noteq> ?Y'"
    then consider "?Y < ?Y'" | "?Y' < ?Y" by arith
    then show False
    proof cases
      case 1
      then have "isoweek1monday (?Y + 1) \<le> isoweek1monday ?Y'"
        using isoweek1monday_strict [of "?Y + 1" ?Y'] by (cases "?Y + 1 = ?Y'") auto
      with hi lo' eq show False by simp
    next
      case 2
      then have "isoweek1monday (?Y' + 1) \<le> isoweek1monday ?Y"
        using isoweek1monday_strict [of "?Y' + 1" ?Y] by (cases "?Y' + 1 = ?Y") auto
      with hi' lo eq show False by simp
    qed
  qed
  moreover from this s(1) s'(1) eq have "?W = ?W'" by simp
  ultimately show ?L by simp
qed

section \<open>Numbers in decimal\<close>

lemma digit_cases:
  assumes "d < 10"
  shows "d = 0 \<or> d = 1 \<or> d = 2 \<or> d = 3 \<or> d = 4 \<or> d = 5 \<or> d = 6 \<or> d = 7 \<or> d = 8 \<or> d = (9::nat)"
  using assms by arith

lemma digit_char_props:
  assumes "d < 10"
  shows "digit_char d \<in> set digit_chars" and "digit_val (digit_char d) = d"
  using digit_cases [OF assms]
  by (elim disjE; simp add: digit_char_def digit_chars_def digit_val_def)+

lemma nat_of_digits_snoc: "nat_of_digits (ds @ [c]) = 10 * nat_of_digits ds + digit_val c"
  by (simp add: nat_of_digits_def)

lemma digits_of_props: "set (digits_of n) \<subseteq> set digit_chars \<and> nat_of_digits (digits_of n) = n"
proof (induction n rule: digits_of.induct)
  case (1 n)
  show ?case
  proof (cases "n < 10")
    case True
    then show ?thesis
      using digit_char_props [OF True]
      by (subst (1 2) digits_of.simps) (simp add: nat_of_digits_def)
  next
    case False
    have "n mod 10 < 10" by simp
    from digit_char_props [OF this] "1.IH" [OF False] False show ?thesis
      by (subst (1 2) digits_of.simps) (simp add: nat_of_digits_snoc)
  qed
qed

lemma nat_of_digits_zeros: "nat_of_digits (replicate k (CHR ''0'') @ ds) = nat_of_digits ds"
  by (induction k) (simp_all add: nat_of_digits_def digit_val_def)

lemma pad_digits: "set (pad w x) \<subseteq> set digit_chars"
  using digits_of_props [of "nat x"]
  by (auto simp add: pad_def digit_chars_def)

lemma pad_value: "nat_of_digits (pad w x) = nat x"
  by (simp add: pad_def nat_of_digits_zeros digits_of_props)

lemma pad_eq_iff: "0 \<le> x \<Longrightarrow> 0 \<le> y \<Longrightarrow> pad w x = pad w y \<longleftrightarrow> x = y"
  using pad_value [of w x] pad_value [of w y] by auto

lemma separators: "CHR ''-'' \<notin> set digit_chars" "CHR '' '' \<notin> set digit_chars"
  "CHR '':'' \<notin> set digit_chars"
  by (simp_all add: digit_chars_def)

lemma split_at_separator:
  "c \<notin> set a \<Longrightarrow> c \<notin> set a' \<Longrightarrow> a @ c # r = a' @ c # r' \<longleftrightarrow> a = a' \<and> r = r'"
proof (induction a arbitrary: a')
  case Nil
  then show ?case by (cases a') auto
next
  case (Cons x xs)
  then show ?case by (cases a') auto
qed

lemma join_eq_iff:
  assumes "set a \<subseteq> set digit_chars" and "set a' \<subseteq> set digit_chars" and "c \<notin> set digit_chars"
  shows "a @ c # r = a' @ c # r' \<longleftrightarrow> a = a' \<and> r = r'"
proof -
  from assms have "c \<notin> set a" "c \<notin> set a'" by auto
  then show ?thesis by (rule split_at_separator)
qed

lemma pad_join:
  assumes "0 \<le> x" and "0 \<le> y" and "c \<notin> set digit_chars"
  shows "pad w x @ c # r = pad w y @ c # r' \<longleftrightarrow> x = y \<and> r = r'"
  using join_eq_iff [OF pad_digits pad_digits assms(3)] pad_eq_iff [OF assms(1,2)] by blast

section \<open>Periods are intervals of time\<close>

lemma convex_patternI:
  fixes f :: "datetime \<Rightarrow> 'k::order"
  assumes mono: "\<And>t t'. valid_datetime t \<Longrightarrow> valid_datetime t' \<Longrightarrow> ts_key t \<le> ts_key t' \<Longrightarrow> f t \<le> f t'"
    and key: "\<And>t t'. valid_datetime t \<Longrightarrow> valid_datetime t' \<Longrightarrow>
                (strftime p t = strftime p t') = (f t = f t')"
  shows "convex_pattern p"
  unfolding convex_pattern_def
proof (intro allI impI)
  fix t1 t2 t3
  assume a: "valid_datetime t1 \<and> valid_datetime t2 \<and> valid_datetime t3 \<and>
        ts_key t3 \<le> ts_key t2 \<and> ts_key t2 \<le> ts_key t1 \<and> strftime p t1 = strftime p t3"
  then have "f t1 = f t3" using key [of t1 t3] by simp
  moreover from a have "f t3 \<le> f t2" "f t2 \<le> f t1" using mono by blast+
  ultimately have "f t2 = f t1" by (simp add: order_antisym)
  with a show "strftime p t2 = strftime p t1" using key [of t2 t1] by simp
qed

lemma valid_nonneg:
  assumes "valid_datetime t"
  shows "0 \<le> year t" "0 \<le> month t" "0 \<le> day t" "0 \<le> hour t" "0 \<le> minute t" "0 \<le> second t"
  using assms by (simp_all add: valid_datetime_def)

lemma strftime_patterns:
  "strftime ''%Y-%m-%d %H:%M:%S'' t =
     pad 4 (year t) @ CHR ''-'' # pad 2 (month t) @ CHR ''-'' # pad 2 (day t) @ CHR '' '' #
     pad 2 (hour t) @ CHR '':'' # pad 2 (minute t) @ CHR '':'' # pad 2 (second t)"
  "strftime ''%Y-%m-%d %H:%M'' t =
     pad 4 (year t) @ CHR ''-'' # pad 2 (month t) @ CHR ''-'' # pad 2 (day t) @ CHR '' '' #
     pad 2 (hour t) @ CHR '':'' # pad 2 (minute t)"
  "strftime ''%Y-%m-%d %H'' t =
     pad 4 (year t) @ CHR ''-'' # pad 2 (month t) @ CHR ''-'' # pad 2 (day t) @ CHR '' '' #
     pad 2 (hour t)"
  "strftime ''%Y-%m-%d'' t =
     pad 4 (year t) @ CHR ''-'' # pad 2 (month t) @ CHR ''-'' # pad 2 (day t)"
  "strftime ''%G-%V'' t =
     pad 4 (fst (isocalendar t)) @ CHR ''-'' # pad 2 (fst (snd (isocalendar t)))"
  "strftime ''%Y-%m'' t = pad 4 (year t) @ CHR ''-'' # pad 2 (month t)"
  "strftime ''%Y'' t = pad 4 (year t)"
  by (simp_all add: directive_def)

lemma convex_second: "convex_pattern ''%Y-%m-%d %H:%M:%S''"
proof (rule convex_patternI
    [where f = "\<lambda>t. (year t, month t, day t, hour t, minute t, second t)"])
  fix t t' assume "ts_key t \<le> ts_key t'"
  then show "(year t, month t, day t, hour t, minute t, second t)
             \<le> (year t', month t', day t', hour t', minute t', second t')"
    by (auto simp add: ts_key_def)
next
  fix t t' assume "valid_datetime t" "valid_datetime t'"
  note n = valid_nonneg [OF this(1)] valid_nonneg [OF this(2)]
  show "(strftime ''%Y-%m-%d %H:%M:%S'' t = strftime ''%Y-%m-%d %H:%M:%S'' t') =
        ((year t, month t, day t, hour t, minute t, second t) =
         (year t', month t', day t', hour t', minute t', second t'))"
    unfolding strftime_patterns by (simp add: pad_join pad_eq_iff separators n)
qed

lemma convex_minute: "convex_pattern ''%Y-%m-%d %H:%M''"
proof (rule convex_patternI [where f = "\<lambda>t. (year t, month t, day t, hour t, minute t)"])
  fix t t' assume "ts_key t \<le> ts_key t'"
  then show "(year t, month t, day t, hour t, minute t)
             \<le> (year t', month t', day t', hour t', minute t')"
    by (auto simp add: ts_key_def)
next
  fix t t' assume "valid_datetime t" "valid_datetime t'"
  note n = valid_nonneg [OF this(1)] valid_nonneg [OF this(2)]
  show "(strftime ''%Y-%m-%d %H:%M'' t = strftime ''%Y-%m-%d %H:%M'' t') =
        ((year t, month t, day t, hour t, minute t) =
         (year t', month t', day t', hour t', minute t'))"
    unfolding strftime_patterns by (simp add: pad_join pad_eq_iff separators n)
qed

lemma convex_hour: "convex_pattern ''%Y-%m-%d %H''"
proof (rule convex_patternI [where f = "\<lambda>t. (year t, month t, day t, hour t)"])
  fix t t' assume "ts_key t \<le> ts_key t'"
  then show "(year t, month t, day t, hour t) \<le> (year t', month t', day t', hour t')"
    by (auto simp add: ts_key_def)
next
  fix t t' assume "valid_datetime t" "valid_datetime t'"
  note n = valid_nonneg [OF this(1)] valid_nonneg [OF this(2)]
  show "(strftime ''%Y-%m-%d %H'' t = strftime ''%Y-%m-%d %H'' t') =
        ((year t, month t, day t, hour t) = (year t', month t', day t', hour t'))"
    unfolding strftime_patterns by (simp add: pad_join pad_eq_iff separators n)
qed

lemma ts_key_date: "ts_key t \<le> ts_key t' \<Longrightarrow> (year t, month t, day t) \<le> (year t', month t', day t')"
  by (auto simp add: ts_key_def)

lemma convex_day: "convex_pattern ''%Y-%m-%d''"
proof (rule convex_patternI [where f = "\<lambda>t. (year t, month t, day t)"])
  fix t t' assume "ts_key t \<le> ts_key t'"
  then show "(year t, month t, day t) \<le> (year t', month t', day t')"
    by (rule ts_key_date)
next
  fix t t' assume "valid_datetime t" "valid_datetime t'"
  note n = valid_nonneg [OF this(1)] valid_nonneg [OF this(2)]
  show "(strftime ''%Y-%m-%d'' t = strftime ''%Y-%m-%d'' t') =
        ((year t, month t, day t) = (year t', month t', day t'))"
    unfolding strftime_patterns by (simp add: pad_join pad_eq_iff separators n)
qed

lemma convex_month: "convex_pattern ''%Y-%m''"
proof (rule convex_patternI [where f = "\<lambda>t. (year t, month t)"])
  fix t t' assume "ts_key t \<le> ts_key t'"
  then show "(year t, month t) \<le> (year t', month t')"
    by (auto simp add: ts_key_def)
next
  fix t t' assume "valid_datetime t" "valid_datetime t'"
  note n = valid_nonneg [OF this(1)] valid_nonneg [OF this(2)]
  show "(strftime ''%Y-%m'' t = strftime ''%Y-%m'' t') = ((year t, month t) = (year t', month t'))"
    unfolding strftime_patterns by (simp add: pad_join pad_eq_iff separators n)
qed

lemma convex_year: "convex_pattern ''%Y''"
proof (rule convex_patternI [where f = "\<lambda>t. year t"])
  fix t t' assume "ts_key t \<le> ts_key t'"
  then show "year t \<le> year t'"
    by (auto simp add: ts_key_def)
next
  fix t t' assume "valid_datetime t" "valid_datetime t'"
  note n = valid_nonneg [OF this(1)] valid_nonneg [OF this(2)]
  show "(strftime ''%Y'' t = strftime ''%Y'' t') = (year t = year t')"
    unfolding strftime_patterns by (simp add: pad_eq_iff n)
qed

lemma convex_week: "convex_pattern ''%G-%V''"
proof (rule convex_patternI
    [where f = "\<lambda>t. ymd2ord (year t) (month t) (day t) -
                   (ymd2ord (year t) (month t) (day t) + 6) mod 7"])
  fix t t' assume v: "valid_datetime t" "valid_datetime t'" and "ts_key t \<le> ts_key t'"
  from ymd2ord_mono [OF v ts_key_date [OF this(3)]]
  show "ymd2ord (year t) (month t) (day t) - (ymd2ord (year t) (month t) (day t) + 6) mod 7
        \<le> ymd2ord (year t') (month t') (day t') -
          (ymd2ord (year t') (month t') (day t') + 6) mod 7"
    by (rule monday_mono)
next
  fix t t' assume v: "valid_datetime t" "valid_datetime t'"
  from isocalendar_spec(2,4) [OF v(1)] valid_datetime_def [of t] v(1)
  have n: "0 \<le> fst (isocalendar t)" "0 \<le> fst (snd (isocalendar t))" by simp_all
  from isocalendar_spec(2,4) [OF v(2)] valid_datetime_def [of t'] v(2)
  have n': "0 \<le> fst (isocalendar t')" "0 \<le> fst (snd (isocalendar t'))" by simp_all
  have "(strftime ''%G-%V'' t = strftime ''%G-%V'' t') =
        (fst (isocalendar t) = fst (isocalendar t') \<and>
         fst (snd (isocalendar t)) = fst (snd (isocalendar t')))"
    unfolding strftime_patterns by (simp add: pad_join pad_eq_iff separators n n')
  then show "(strftime ''%G-%V'' t = strftime ''%G-%V'' t') =
        (ymd2ord (year t) (month t) (day t) - (ymd2ord (year t) (month t) (day t) + 6) mod 7 =
         ymd2ord (year t') (month t') (day t') -
           (ymd2ord (year t') (month t') (day t') + 6) mod 7)"
    by (simp only: iso_week_same_monday [OF v])
qed

lemma TIME_PATTERNS_convex: "p \<in> snd ` set TIME_PATTERNS \<Longrightarrow> convex_pattern p"
  using convex_second convex_minute convex_hour convex_day convex_week convex_month convex_year
  by (auto simp add: TIME_PATTERNS_def)

section \<open>The loop of the selection\<close>

lemma keep_loop_names: "keep_loop ks n prev arcs = map name (kept_loop ks n prev arcs)"
  by (induction arcs arbitrary: n prev) simp_all

lemma kept_loop_length:
  "n \<le> num ks \<Longrightarrow> int (length (kept_loop ks n prev arcs)) \<le> num ks - n"
proof (induction arcs arbitrary: n prev)
  case Nil
  then show ?case by simp
next
  case (Cons a arcs)
  show ?case
  proof (cases "n = num ks")
    case True
    then show ?thesis by simp
  next
    case False
    with Cons.prems have "n + 1 \<le> num ks" by simp
    from Cons.IH [OF this, of "Some (strftime (timepattern ks) (timestamp a))"]
    have "int (length (kept_loop ks (n + 1) (Some (strftime (timepattern ks) (timestamp a))) arcs)) + 1
          \<le> num ks - n"
      by simp
    with Cons.IH [OF Cons.prems, of prev] False show ?thesis
      by simp
  qed
qed

lemma kept_loop_subset: "set (kept_loop ks n prev arcs) \<subseteq> set arcs"
  by (induction arcs arbitrary: n prev) auto

lemma keep_loop_full: "keep_loop ks (num ks) prev arcs = []"
  by (cases arcs) simp_all

lemma keep_loop_skip:
  "n \<noteq> num ks \<Longrightarrow>
   keep_loop ks n (Some (bucket ks a)) (a # rest) = keep_loop ks n (Some (bucket ks a)) rest"
  by (simp add: bucket_def)

lemma keep_loop_same_period:
  "bucket ks b = bucket ks a \<Longrightarrow>
   keep_loop ks n prev (xs @ a # b # ys) = keep_loop ks n prev (xs @ a # ys)"
proof (induction xs arbitrary: n prev)
  case Nil
  then show ?case
    by (cases "n + 1 = num ks") (simp_all add: bucket_def keep_loop_full)
next
  case (Cons x xs)
  then show ?case by simp
qed

lemma sorted_desc_Cons:
  "sorted_desc (a # arcs) \<longleftrightarrow>
     (\<forall>b\<in>set arcs. ts_key (timestamp b) \<le> ts_key (timestamp a)) \<and> sorted_desc arcs"
  by (simp add: sorted_desc_def)

lemma kept_loop_periods:
  assumes "convex_pattern (timepattern ks)"
  shows "sorted_desc arcs \<Longrightarrow> \<forall>a\<in>set arcs. valid_datetime (timestamp a) \<Longrightarrow>
    prev = None \<or> (\<exists>t0. valid_datetime t0 \<and> prev = Some (strftime (timepattern ks) t0) \<and>
                         (\<forall>a\<in>set arcs. ts_key (timestamp a) \<le> ts_key t0)) \<Longrightarrow>
    distinct (map (bucket ks) (kept_loop ks n prev arcs)) \<and>
    (\<forall>k\<in>set (kept_loop ks n prev arcs).
       Some (bucket ks k) \<noteq> prev \<and>
       (\<forall>b\<in>set arcs. bucket ks b = bucket ks k \<longrightarrow> ts_key (timestamp b) \<le> ts_key (timestamp k)))"
proof (induction arcs arbitrary: n prev)
  case Nil
  show ?case by simp
next
  case (Cons a arcs)
  let ?p = "timepattern ks"
  from Cons.prems(1) have newest: "\<forall>b\<in>set arcs. ts_key (timestamp b) \<le> ts_key (timestamp a)"
    and sorted: "sorted_desc arcs"
    by (simp_all add: sorted_desc_Cons)
  from Cons.prems(2) have va: "valid_datetime (timestamp a)"
    and valid: "\<forall>a\<in>set arcs. valid_datetime (timestamp a)"
    by simp_all
  show ?case
  proof (cases "n = num ks")
    case True
    then show ?thesis by simp
  next
    case False
    show ?thesis
    proof (cases "Some (bucket ks a) = prev")
      case True
      from Cons.prems(3) have ok: "prev = None \<or> (\<exists>t0. valid_datetime t0 \<and>
          prev = Some (strftime ?p t0) \<and> (\<forall>a\<in>set arcs. ts_key (timestamp a) \<le> ts_key t0))"
        by auto
      note ih = Cons.IH [OF sorted valid ok, of n]
      from False True have eq: "kept_loop ks n prev (a # arcs) = kept_loop ks n prev arcs"
        by (simp add: bucket_def)
      from ih True show ?thesis
        unfolding eq by auto
    next
      case new: False
      have ok: "Some (bucket ks a) = None \<or> (\<exists>t0. valid_datetime t0 \<and>
          Some (bucket ks a) = Some (strftime ?p t0) \<and>
          (\<forall>a\<in>set arcs. ts_key (timestamp a) \<le> ts_key t0))"
        using va newest by (auto simp add: bucket_def)
      note ih = Cons.IH [OF sorted valid ok, of "n + 1"]
      from False new have eq: "kept_loop ks n prev (a # arcs) =
          a # kept_loop ks (n + 1) (Some (bucket ks a)) arcs"
        by (simp add: bucket_def)
      have others: "Some (bucket ks k) \<noteq> prev"
        if k: "k \<in> set (kept_loop ks (n + 1) (Some (bucket ks a)) arcs)" for k
      proof
        assume same: "Some (bucket ks k) = prev"
        with Cons.prems(3) obtain t0 where t0: "valid_datetime t0" "prev = Some (strftime ?p t0)"
          "\<forall>a\<in>set (a # arcs). ts_key (timestamp a) \<le> ts_key t0"
          by auto
        from k kept_loop_subset have kin: "k \<in> set arcs" by blast
        with valid newest have vk: "valid_datetime (timestamp k)"
          and le: "ts_key (timestamp k) \<le> ts_key (timestamp a)" by simp_all
        from t0(3) have le0: "ts_key (timestamp a) \<le> ts_key t0" by simp
        from same t0(2) have "strftime ?p t0 = strftime ?p (timestamp k)"
          by (simp add: bucket_def)
        with assms t0(1) va vk le le0 have "strftime ?p (timestamp a) = strftime ?p t0"
          unfolding convex_pattern_def by blast
        with t0(2) new show False by (simp add: bucket_def)
      qed
      from ih others newest show ?thesis
        unfolding eq using new by auto
    qed
  qed
qed


section \<open>What one rule retains\<close>

text \<open>
  C1. Let the archives be sorted from newest to oldest, with timestamps that \<^verbatim>\<open>datetime\<close>
  admits, and let the rule have one of the patterns of \<^verbatim>\<open>TIME_PATTERNS\<close> and a count
  \<open>N \<ge> 0\<close>. Then \<^verbatim>\<open>arc_names_to_keep\<close> yields the names of the archives \<open>arcs_to_keep\<close>, at
  most \<open>N\<close> of them; no two of these archives have the same bucket key; each of them is an
  archive of the list and no archive of the list with the same bucket key is newer. An
  archive whose bucket key is that of the last one yielded leaves the loop in the state it
  was in (same count, same previous key), and putting an archive right after one of its own
  period changes nothing in what is yielded.
\<close>

theorem select_retained:
  assumes "sorted_desc arcs" and "\<forall>a\<in>set arcs. valid_datetime (timestamp a)"
    and "timepattern ks \<in> snd ` set TIME_PATTERNS" and "0 \<le> num ks"
  shows "arc_names_to_keep arcs ks = map name (arcs_to_keep arcs ks) \<and>
         int (length (arc_names_to_keep arcs ks)) \<le> num ks \<and>
         distinct (map (bucket ks) (arcs_to_keep arcs ks)) \<and>
         (\<forall>k\<in>set (arcs_to_keep arcs ks). k \<in> set arcs \<and>
            (\<forall>b\<in>set arcs. bucket ks b = bucket ks k \<longrightarrow>
               ts_key (timestamp b) \<le> ts_key (timestamp k))) \<and>
         (\<forall>n a rest. n \<noteq> num ks \<longrightarrow>
            keep_loop ks n (Some (bucket ks a)) (a # rest) =
            keep_loop ks n (Some (bucket ks a)) rest) \<and>
         (\<forall>xs a b ys. bucket ks b = bucket ks a \<longrightarrow>
            arc_names_to_keep (xs @ a # b # ys) ks = arc_names_to_keep (xs @ a # ys) ks)"
proof -
  have names: "arc_names_to_keep arcs ks = map name (arcs_to_keep arcs ks)"
    by (simp add: arc_names_to_keep_def arcs_to_keep_def keep_loop_names)
  from kept_loop_length [of 0 ks None arcs] assms(4)
  have count: "int (length (arc_names_to_keep arcs ks)) \<le> num ks"
    by (simp add: names arcs_to_keep_def)
  from kept_loop_periods [OF TIME_PATTERNS_convex [OF assms(3)] assms(1,2), of None 0]
  have periods: "distinct (map (bucket ks) (arcs_to_keep arcs ks))"
    and newest: "\<forall>k\<in>set (arcs_to_keep arcs ks).
      \<forall>b\<in>set arcs. bucket ks b = bucket ks k \<longrightarrow> ts_key (timestamp b) \<le> ts_key (timestamp k)"
    by (simp_all add: arcs_to_keep_def)
  have member: "\<forall>k\<in>set (arcs_to_keep arcs ks). k \<in> set arcs"
    using kept_loop_subset [of ks 0 None arcs] by (auto simp add: arcs_to_keep_def)
  have skip: "\<forall>n a rest. n \<noteq> num ks \<longrightarrow>
      keep_loop ks n (Some (bucket ks a)) (a # rest) = keep_loop ks n (Some (bucket ks a)) rest"
    using keep_loop_skip by blast
  have same: "\<forall>xs a b ys. bucket ks b = bucket ks a \<longrightarrow>
      arc_names_to_keep (xs @ a # b # ys) ks = arc_names_to_keep (xs @ a # ys) ks"
    using keep_loop_same_period by (simp add: arc_names_to_keep_def)
  from names count periods newest member skip same show ?thesis
    by blast
qed

lemma valid_test_date:
  "valid_datetime (timestamp (test_arc n 2000 3 15))" "valid_datetime (timestamp (test_arc n 2000 3 1))"
  "valid_datetime (timestamp (test_arc n 2000 2 15))" "valid_datetime (timestamp (test_arc n 2000 2 1))"
  "valid_datetime (timestamp (test_arc n 2000 1 15))"
  by (simp_all add: valid_datetime_def test_arc_def test_date_def days_in_month_def
      DAYS_IN_MONTH_def is_leap_def)

lemma sorted_test_keep_arcs: "sorted_desc test_keep_arcs"
  by (simp add: sorted_desc_def test_keep_arcs_def ts_key_test_arc)

lemma pad_keep_values: "pad 2 3 = ''03''"
  by (simp add: pad_def digits_of.simps digit_char_def)

lemma names_test_keep_arcs: "arc_names_to_keep test_keep_arcs test_keep_ks = [''1'', ''3'']"
  by (simp add: arc_names_to_keep_def test_keep_arcs_def test_keep_ks_def strftime_patterns
      pad_test_values pad_keep_values test_arc_sel del: strftime.simps)

theorem select_retained_witness:
  "sorted_desc test_keep_arcs \<and> list_all (\<lambda>a. valid_datetime (timestamp a)) test_keep_arcs \<and>
   timepattern test_keep_ks \<in> snd ` set TIME_PATTERNS \<and> 0 \<le> num test_keep_ks \<and>
   arc_names_to_keep test_keep_arcs test_keep_ks = [''1'', ''3''] \<and>
   map name (arcs_to_keep test_keep_arcs test_keep_ks) = [''1'', ''3''] \<and>
   distinct (map (bucket test_keep_ks) (arcs_to_keep test_keep_arcs test_keep_ks))"
proof -
  have v: "\<forall>a\<in>set test_keep_arcs. valid_datetime (timestamp a)"
    by (simp add: test_keep_arcs_def valid_test_date)
  have p: "timepattern test_keep_ks \<in> snd ` set TIME_PATTERNS"
    by (simp add: test_keep_ks_def TIME_PATTERNS_def)
  have n: "0 \<le> num test_keep_ks"
    by (simp add: test_keep_ks_def)
  note t = select_retained [OF sorted_test_keep_arcs v p n]
  from t have "arc_names_to_keep test_keep_arcs test_keep_ks =
      map name (arcs_to_keep test_keep_arcs test_keep_ks)"
    and "distinct (map (bucket test_keep_ks) (arcs_to_keep test_keep_arcs test_keep_ks))"
    by blast+
  with sorted_test_keep_arcs v p n names_test_keep_arcs show ?thesis
    by (simp add: list_all_iff)
qed

end
